theory Spec2Isabelle
  imports Main "HOL-Library.AList" "HOL-Library.Sublist"
begin

section \<open>Containers and values\<close>

text \<open>
  The source is TypeScript. Its \<^verbatim>\<open>Map\<close> and \<^verbatim>\<open>Set\<close> are modelled with the
  iteration behaviour of ECMAScript collections: a \<^verbatim>\<open>Map\<close> is an association list in
  insertion order (\<open>AList.update\<close> overwrites an existing key in place and appends a new
  one, \<open>AList.delete\<close> drops the key, \<open>map_of\<close> looks a key up), a \<^verbatim>\<open>Set\<close> is a list
  without repetitions in insertion order. Entity, component and group identifiers are
  the numbers handed out by the counters of the source.
\<close>

type_synonym EntityId = nat
type_synonym Id = nat
type_synonym GroupRef = nat

definition Set_add :: "'a \<Rightarrow> 'a list \<Rightarrow> 'a list" where
  "Set_add x xs = (if x \<in> set xs then xs else xs @ [x])"

definition Set_delete :: "'a \<Rightarrow> 'a list \<Rightarrow> 'a list" where
  "Set_delete x xs = removeAll x xs"

definition Set_of :: "'a list \<Rightarrow> 'a list" where
  "Set_of xs = fold Set_add xs []"

definition Map_has :: "('k \<times> 'v) list \<Rightarrow> 'k \<Rightarrow> bool" where
  "Map_has m k = (map_of m k \<noteq> None)"

text \<open>
  \<^verbatim>\<open>deepClone\<close> (utils.ts) encodes a value as JSON and decodes it again. Component
  values are plain data; a HOL value has no identity and cannot be mutated, so the copy
  of a value is the value.
\<close>

definition deepClone :: "'v \<Rightarrow> 'v" where
  "deepClone obj = obj"

text \<open>\<^verbatim>\<open>generateId\<close> (utils.ts): the counter is passed in and returned incremented.\<close>

definition generateId :: "nat \<Rightarrow> nat \<times> nat" where
  "generateId nextId = (nextId, nextId + 1)"

section \<open>Event (the publish/subscribe channel)\<close>

text \<open>
  An event holds its connections, a Map from connection id to callback, and the counter
  for the ids. The type of the callbacks is a parameter.
\<close>

record 'cb Event =
  connections :: "(nat \<times> 'cb) list"
  nextId :: nat

definition new_Event :: "'cb Event" where
  "new_Event = \<lparr>connections = [], nextId = 0\<rparr>"

definition connect :: "'cb Event \<Rightarrow> 'cb \<Rightarrow> nat \<times> 'cb Event" where
  "connect ev callback =
     (let cid = nextId ev
      in (cid, ev\<lparr>connections := AList.update cid callback (connections ev), nextId := cid + 1\<rparr>))"

definition Disconnect :: "nat \<Rightarrow> 'cb Event \<Rightarrow> 'cb Event" where
  "Disconnect cid ev = ev\<lparr>connections := AList.delete cid (connections ev)\<rparr>"

definition disconnectAll :: "'cb Event \<Rightarrow> 'cb Event" where
  "disconnectAll ev = ev\<lparr>connections := []\<rparr>"

definition getConnectionCount :: "'cb Event \<Rightarrow> nat" where
  "getConnectionCount ev = length (connections ev)"

text \<open>
  A callback is arbitrary code. For the delivery of an event what matters is what the
  callback does to the event while it runs: it may dispose of subscriptions
  (\<^verbatim>\<open>Disconnect()\<close> on the connection with a given id), connect further callbacks,
  call \<^verbatim>\<open>disconnectAll\<close>, and raise. Callbacks are named by numbers, and a table
  \<open>code\<close> gives for every name the actions of the callback in order. \<open>run_callback\<close>
  runs the actions on the event and tells whether the callback raised. (A callback
  that fires the same event again while it is being delivered is outside this model.)
\<close>

datatype action = DisconnectA nat | ConnectA nat | DisconnectAllA | Raise

fun run_callback :: "action list \<Rightarrow> nat Event \<Rightarrow> nat Event \<times> bool" where
  "run_callback [] ev = (ev, False)"
| "run_callback (DisconnectA cid # rest) ev = run_callback rest (Disconnect cid ev)"
| "run_callback (ConnectA callback # rest) ev = run_callback rest (snd (connect ev callback))"
| "run_callback (DisconnectAllA # rest) ev = run_callback rest (disconnectAll ev)"
| "run_callback (Raise # rest) ev = (ev, True)"

text \<open>
  \<^verbatim>\<open>this.connections.forEach((cb) => cb(...args))\<close> walks the live map (the Map of
  ECMAScript): the entries are visited in insertion order, an entry deleted before its
  turn is not visited, an entry added during the walk is visited, and an exception of a
  callback ends the walk and leaves \<^verbatim>\<open>fire\<close>. Connection ids are never issued twice,
  so the entry to visit next is the first entry of the map, as it is now, that has not
  been visited. A callback that keeps connecting callbacks makes the walk endless:
  \<open>forEach\<close> takes the number of callbacks it may still invoke and yields \<open>None\<close> when
  that number does not suffice. The outcome holds the event and the ids of the
  connections whose callbacks were invoked, in order.
\<close>

datatype outcome = Returned "nat Event" "nat list" | Threw "nat Event" "nat list"

fun forEach :: "(nat \<Rightarrow> action list) \<Rightarrow> nat \<Rightarrow> nat Event \<Rightarrow> nat list \<Rightarrow> outcome option" where
  "forEach code fuel ev invoked =
     (case find (\<lambda>(cid, cb). cid \<notin> set invoked) (connections ev) of
        None \<Rightarrow> Some (Returned ev invoked)
      | Some (cid, cb) \<Rightarrow>
          (case fuel of
             0 \<Rightarrow> None
           | Suc fuel' \<Rightarrow>
               (case run_callback (code cb) ev of
                  (ev', True) \<Rightarrow> Some (Threw ev' (invoked @ [cid]))
                | (ev', False) \<Rightarrow> forEach code fuel' ev' (invoked @ [cid]))))"

definition fire :: "(nat \<Rightarrow> action list) \<Rightarrow> nat \<Rightarrow> nat Event \<Rightarrow> outcome option" where
  "fire code fuel ev = forEach code fuel ev []"

text \<open>
  The ids of the connections of an event, in connection order, and the callback
  connected under an id.
\<close>

definition connection_ids :: "'cb Event \<Rightarrow> nat list" where
  "connection_ids ev = map fst (connections ev)"

definition lookup :: "'cb Event \<Rightarrow> nat \<Rightarrow> 'cb option" where
  "lookup ev k = map_of (connections ev) k"

text \<open>
  The events that \<^verbatim>\<open>connect\<close>, \<^verbatim>\<open>Disconnect\<close> and \<^verbatim>\<open>disconnectAll\<close> produce from a
  new event: the ids were issued by the counter, so they increase along the map and lie
  below the counter.
\<close>

definition event_ok :: "'cb Event \<Rightarrow> bool" where
  "event_ok ev =
     (sorted_wrt (<) (connection_ids ev) \<and> (\<forall>k \<in> set (connection_ids ev). k < nextId ev))"





section \<open>Groups and the world state\<close>

text \<open>
  A \<^verbatim>\<open>GroupImpl\<close> is a mutable object shared between the caller, the world's
  \<^verbatim>\<open>groups\<close> set and the sets of \<^verbatim>\<open>entityToGroups\<close>. The objects live in a store
  \<open>groupObjs\<close> addressed by the group's \<^verbatim>\<open>id\<close> (the static counter
  \<^verbatim>\<open>GroupImpl.nextId\<close>), and the world's collections hold these addresses.

  The two events of a group are public fields of the object. Their callbacks are the
  listener that \<^verbatim>\<open>createGroup\<close> connects (\<open>WorldListener\<close>) and whatever observers a
  caller connects (\<open>Observer\<close>). \<open>addEntity\<close> and \<open>removeEntity\<close> fire these events, so
  the world's listener runs only while it is connected. An observer is taken neither
  to raise nor to call back into the world, the group or the event during delivery,
  and the world's listeners do not touch the group's events, so the walk of \<^verbatim>\<open>fire\<close>
  visits the connections as they are when the event is fired (\<open>fire_listeners\<close>).
  The world's own events (\<^verbatim>\<open>onEntitySpawned\<close> and the others) have no listener of
  the world's; firing them to such observers leaves the state as it is.
\<close>

datatype listener = WorldListener | Observer nat

record 'v GroupImpl =
  g_entities :: "EntityId list"
  g_components :: "(Id \<times> 'v) list"
  onEntityAdded :: "listener Event"
  onEntityRemoved :: "listener Event"

record 'v World =
  nextEntityId :: nat
  entities :: "EntityId list"
  components :: "(EntityId \<times> (Id \<times> 'v) list) list"
  groups :: "GroupRef list"
  entityToGroups :: "(EntityId \<times> GroupRef list) list"
  archetypeToEntities :: "(string \<times> EntityId list) list"
  entityToArchetype :: "(EntityId \<times> string) list"
  groupObjs :: "(GroupRef \<times> 'v GroupImpl) list"
  nextGroupId :: nat

definition createWorld :: "'v World" where
  "createWorld = \<lparr>nextEntityId = 1, entities = [], components = [], groups = [],
     entityToGroups = [], archetypeToEntities = [], entityToArchetype = [],
     groupObjs = [], nextGroupId = 1\<rparr>"

datatype error = UnknownEntity EntityId | NoComponentTable EntityId

subsection \<open>Archetype signatures\<close>

definition digit_chars :: string where
  "digit_chars = ''0123456789''"

function tostring :: "nat \<Rightarrow> string" where
  "tostring n = (if n < 10 then [digit_chars ! n] else tostring (n div 10) @ [digit_chars ! (n mod 10)])"
  by pat_completeness auto
termination
  by (relation "measure (\<lambda>n. n)") auto

definition digit_val :: "char \<Rightarrow> nat option" where
  "digit_val c = map_of (zip digit_chars [0, 1, 2, 3, 4, 5, 6, 7, 8, 9]) c"

fun tonumber_from :: "nat \<Rightarrow> string \<Rightarrow> nat option" where
  "tonumber_from n [] = Some n"
| "tonumber_from n (c # cs) =
     (case digit_val c of None \<Rightarrow> None | Some d \<Rightarrow> tonumber_from (10 * n + d) cs)"

text \<open>Signatures hold decimal numerals only; anything else is not a number.\<close>

definition tonumber :: "string \<Rightarrow> nat option" where
  "tonumber s = (if s = [] then None else tonumber_from 0 s)"

fun join :: "string \<Rightarrow> string list \<Rightarrow> string" where
  "join sep [] = []"
| "join sep [x] = x"
| "join sep (x # y # ys) = x @ sep @ join sep (y # ys)"

fun split_from :: "char \<Rightarrow> string \<Rightarrow> string \<Rightarrow> string list" where
  "split_from sep cur [] = [cur]"
| "split_from sep cur (c # cs) =
     (if c = sep then cur # split_from sep [] cs else split_from sep (cur @ [c]) cs)"

definition split :: "string \<Rightarrow> char \<Rightarrow> string list" where
  "split s sep = split_from sep [] s"

definition swap_if_greater :: "nat \<Rightarrow> nat \<Rightarrow> Id list \<Rightarrow> Id list" where
  "swap_if_greater i j a = (if a ! i > a ! j then a[i := a ! j, j := a ! i] else a)"

definition generateArchetypeSignature :: "Id list \<Rightarrow> string" where
  "generateArchetypeSignature comps =
     (let componentArray = comps;
          len = length componentArray;
          sorted = fold (\<lambda>i a. fold (\<lambda>j a. swap_if_greater i j a) [Suc i..<len] a)
                     [0..<len - 1] componentArray
      in join ''|'' (map tostring sorted))"

definition parse_signature :: "string \<Rightarrow> Id list" where
  "parse_signature archetype =
     filter (\<lambda>n. n > 0)
       (map (\<lambda>s. case tonumber s of None \<Rightarrow> 0 | Some n \<Rightarrow> n) (split archetype CHR ''|''))"

definition leave_bucket ::
  "string \<Rightarrow> EntityId \<Rightarrow> (string \<times> EntityId list) list \<Rightarrow> (string \<times> EntityId list) list" where
  "leave_bucket oldArchetype entity a2e =
     (case map_of a2e oldArchetype of
        None \<Rightarrow> a2e
      | Some es \<Rightarrow>
          (let es' = Set_delete entity es
           in if es' = [] then AList.delete oldArchetype a2e
              else AList.update oldArchetype es' a2e))"

definition updateEntityArchetype :: "'v World \<Rightarrow> EntityId \<Rightarrow> 'v World" where
  "updateEntityArchetype w entity =
     (let oldArchetype = map_of (entityToArchetype w) entity;
          comps = map_of (components w) entity
      in if comps = None \<or> comps = Some []
         then (case oldArchetype of
                 None \<Rightarrow> w
               | Some old \<Rightarrow>
                   if old = [] then w
                   else w\<lparr>archetypeToEntities := leave_bucket old entity (archetypeToEntities w),
                          entityToArchetype := AList.delete entity (entityToArchetype w)\<rparr>)
         else
           (let componentKeys = map fst (case comps of None \<Rightarrow> [] | Some cs \<Rightarrow> cs);
                newArchetype = generateArchetypeSignature (Set_of componentKeys)
            in if oldArchetype \<noteq> Some newArchetype
               then
                 (let a1 = (case oldArchetype of
                              None \<Rightarrow> archetypeToEntities w
                            | Some old \<Rightarrow>
                                if old = [] then archetypeToEntities w
                                else leave_bucket old entity (archetypeToEntities w));
                      a2 = (if Map_has a1 newArchetype then a1 else AList.update newArchetype [] a1);
                      a3 = (case map_of a2 newArchetype of
                              None \<Rightarrow> a2
                            | Some es \<Rightarrow> AList.update newArchetype (Set_add entity es) a2)
                  in w\<lparr>archetypeToEntities := a3,
                       entityToArchetype := AList.update entity newArchetype (entityToArchetype w)\<rparr>)
               else w))"

subsection \<open>Group objects (group.ts) and the listeners of createGroup\<close>

definition onEntityAdded_listener :: "'v World \<Rightarrow> GroupRef \<Rightarrow> EntityId \<Rightarrow> 'v World" where
  "onEntityAdded_listener w grp entity =
     (let e2g = (if Map_has (entityToGroups w) entity then entityToGroups w
                 else AList.update entity [] (entityToGroups w))
      in w\<lparr>entityToGroups :=
             (case map_of e2g entity of
                None \<Rightarrow> e2g
              | Some gs \<Rightarrow> AList.update entity (Set_add grp gs) e2g)\<rparr>)"

definition onEntityRemoved_listener :: "'v World \<Rightarrow> GroupRef \<Rightarrow> EntityId \<Rightarrow> 'v World" where
  "onEntityRemoved_listener w grp entity =
     (case map_of (entityToGroups w) entity of
        None \<Rightarrow> w
      | Some gs \<Rightarrow>
          (let gs' = Set_delete grp gs
           in if gs' = [] then w\<lparr>entityToGroups := AList.delete entity (entityToGroups w)\<rparr>
              else w\<lparr>entityToGroups := AList.update entity gs' (entityToGroups w)\<rparr>))"

definition fire_listeners :: "listener Event \<Rightarrow> ('v World \<Rightarrow> 'v World) \<Rightarrow> 'v World \<Rightarrow> 'v World" where
  "fire_listeners ev world_listener w =
     fold (\<lambda>(cid, cb) w'. case cb of WorldListener \<Rightarrow> world_listener w' | Observer n \<Rightarrow> w')
       (connections ev) w"

definition addEntity :: "'v World \<Rightarrow> GroupRef \<Rightarrow> EntityId \<Rightarrow> 'v World" where
  "addEntity w grp entity =
     (case map_of (groupObjs w) grp of
        None \<Rightarrow> w
      | Some obj \<Rightarrow>
          if entity \<notin> set (g_entities obj)
          then fire_listeners (onEntityAdded obj)
                 (\<lambda>w'. onEntityAdded_listener w' grp entity)
                 (w\<lparr>groupObjs := AList.update grp
                        (obj\<lparr>g_entities := Set_add entity (g_entities obj)\<rparr>) (groupObjs w)\<rparr>)
          else w)"

definition removeEntity :: "'v World \<Rightarrow> GroupRef \<Rightarrow> EntityId \<Rightarrow> 'v World" where
  "removeEntity w grp entity =
     (case map_of (groupObjs w) grp of
        None \<Rightarrow> w
      | Some obj \<Rightarrow>
          if entity \<in> set (g_entities obj)
          then fire_listeners (onEntityRemoved obj)
                 (\<lambda>w'. onEntityRemoved_listener w' grp entity)
                 (w\<lparr>groupObjs := AList.update grp
                        (obj\<lparr>g_entities := Set_delete entity (g_entities obj)\<rparr>) (groupObjs w)\<rparr>)
          else w)"

text \<open>
  What a caller can do with the public events of a group: clear the connections
  (\<^verbatim>\<open>disconnectAll\<close>), connect an observer, and fire the event.
\<close>

definition clear_onEntityAdded :: "'v World \<Rightarrow> GroupRef \<Rightarrow> 'v World" where
  "clear_onEntityAdded w grp =
     (case map_of (groupObjs w) grp of
        None \<Rightarrow> w
      | Some obj \<Rightarrow>
          w\<lparr>groupObjs := AList.update grp
               (obj\<lparr>onEntityAdded := disconnectAll (onEntityAdded obj)\<rparr>) (groupObjs w)\<rparr>)"

definition clear_onEntityRemoved :: "'v World \<Rightarrow> GroupRef \<Rightarrow> 'v World" where
  "clear_onEntityRemoved w grp =
     (case map_of (groupObjs w) grp of
        None \<Rightarrow> w
      | Some obj \<Rightarrow>
          w\<lparr>groupObjs := AList.update grp
               (obj\<lparr>onEntityRemoved := disconnectAll (onEntityRemoved obj)\<rparr>) (groupObjs w)\<rparr>)"

definition observe_onEntityAdded :: "'v World \<Rightarrow> GroupRef \<Rightarrow> nat \<Rightarrow> 'v World" where
  "observe_onEntityAdded w grp n =
     (case map_of (groupObjs w) grp of
        None \<Rightarrow> w
      | Some obj \<Rightarrow>
          w\<lparr>groupObjs := AList.update grp
               (obj\<lparr>onEntityAdded := snd (connect (onEntityAdded obj) (Observer n))\<rparr>) (groupObjs w)\<rparr>)"

definition observe_onEntityRemoved :: "'v World \<Rightarrow> GroupRef \<Rightarrow> nat \<Rightarrow> 'v World" where
  "observe_onEntityRemoved w grp n =
     (case map_of (groupObjs w) grp of
        None \<Rightarrow> w
      | Some obj \<Rightarrow>
          w\<lparr>groupObjs := AList.update grp
               (obj\<lparr>onEntityRemoved := snd (connect (onEntityRemoved obj) (Observer n))\<rparr>) (groupObjs w)\<rparr>)"

definition fire_onEntityAdded :: "'v World \<Rightarrow> GroupRef \<Rightarrow> EntityId \<Rightarrow> 'v World" where
  "fire_onEntityAdded w grp entity =
     (case map_of (groupObjs w) grp of
        None \<Rightarrow> w
      | Some obj \<Rightarrow>
          fire_listeners (onEntityAdded obj) (\<lambda>w'. onEntityAdded_listener w' grp entity) w)"

definition fire_onEntityRemoved :: "'v World \<Rightarrow> GroupRef \<Rightarrow> EntityId \<Rightarrow> 'v World" where
  "fire_onEntityRemoved w grp entity =
     (case map_of (groupObjs w) grp of
        None \<Rightarrow> w
      | Some obj \<Rightarrow>
          fire_listeners (onEntityRemoved obj) (\<lambda>w'. onEntityRemoved_listener w' grp entity) w)"

definition hasEntity :: "'v World \<Rightarrow> GroupRef \<Rightarrow> EntityId \<Rightarrow> bool" where
  "hasEntity w grp entity =
     (case map_of (groupObjs w) grp of None \<Rightarrow> False | Some obj \<Rightarrow> entity \<in> set (g_entities obj))"

definition getEntities :: "'v World \<Rightarrow> GroupRef \<Rightarrow> EntityId list" where
  "getEntities w grp =
     (case map_of (groupObjs w) grp of None \<Rightarrow> [] | Some obj \<Rightarrow> g_entities obj)"

definition group_set :: "'v World \<Rightarrow> GroupRef \<Rightarrow> Id \<Rightarrow> 'v \<Rightarrow> 'v World" where
  "group_set w grp component val =
     (case map_of (groupObjs w) grp of
        None \<Rightarrow> w
      | Some obj \<Rightarrow>
          w\<lparr>groupObjs := AList.update grp
               (obj\<lparr>g_components := AList.update component val (g_components obj)\<rparr>) (groupObjs w)\<rparr>)"

definition group_get :: "'v World \<Rightarrow> GroupRef \<Rightarrow> Id \<Rightarrow> 'v option" where
  "group_get w grp component =
     (case map_of (groupObjs w) grp of None \<Rightarrow> None | Some obj \<Rightarrow> map_of (g_components obj) component)"

definition group_has :: "'v World \<Rightarrow> GroupRef \<Rightarrow> Id \<Rightarrow> bool" where
  "group_has w grp component =
     (case map_of (groupObjs w) grp of None \<Rightarrow> False | Some obj \<Rightarrow> Map_has (g_components obj) component)"

definition group_remove :: "'v World \<Rightarrow> GroupRef \<Rightarrow> Id \<Rightarrow> bool \<times> 'v World" where
  "group_remove w grp component =
     (case map_of (groupObjs w) grp of
        None \<Rightarrow> (False, w)
      | Some obj \<Rightarrow>
          (Map_has (g_components obj) component,
           w\<lparr>groupObjs := AList.update grp
               (obj\<lparr>g_components := AList.delete component (g_components obj)\<rparr>) (groupObjs w)\<rparr>))"

subsection \<open>World operations (class WorldImpl with the archetype index)\<close>

definition spawn :: "'v World \<Rightarrow> EntityId \<times> 'v World" where
  "spawn w =
     (let entity = nextEntityId w
      in (entity, w\<lparr>nextEntityId := entity + 1,
                    entities := Set_add entity (entities w),
                    components := AList.update entity [] (components w)\<rparr>))"

definition valid :: "'v World \<Rightarrow> EntityId \<Rightarrow> bool" where
  "valid w entity = (entity \<in> set (entities w))"

text \<open>
  \<^verbatim>\<open>despawn\<close> walks the set \<^verbatim>\<open>entityToGroups.get(entity)\<close> while the listener of each
  group deletes that very group from it; deleting the element being visited does not
  disturb the walk, so every group of the set is visited.
\<close>

definition despawn :: "'v World \<Rightarrow> EntityId \<Rightarrow> bool \<times> 'v World" where
  "despawn w entity =
     (if \<not> valid w entity then (False, w)
      else
        (let w1 = (case map_of (entityToGroups w) entity of
                     None \<Rightarrow> w
                   | Some gs \<Rightarrow>
                       (let w' = fold (\<lambda>grp w'. removeEntity w' grp entity) gs w
                        in w'\<lparr>entityToGroups := AList.delete entity (entityToGroups w')\<rparr>))
         in case map_of (components w1) entity of
              None \<Rightarrow> (False, w1)
            | Some comps \<Rightarrow>
                (True, w1\<lparr>entities := Set_delete entity (entities w1),
                          components := AList.delete entity (components w1)\<rparr>)))"

definition world_set :: "'v World \<Rightarrow> EntityId \<Rightarrow> Id \<Rightarrow> 'v \<Rightarrow> error + 'v World" where
  "world_set w entity component val =
     (if \<not> valid w entity then Inl (UnknownEntity entity)
      else case map_of (components w) entity of
             None \<Rightarrow> Inr w
           | Some comps \<Rightarrow>
               Inr (updateEntityArchetype
                      (w\<lparr>components := AList.update entity (AList.update component val comps) (components w)\<rparr>)
                      entity))"

definition first_group_with :: "'v World \<Rightarrow> Id \<Rightarrow> GroupRef list \<Rightarrow> GroupRef option" where
  "first_group_with w component gs = find (\<lambda>grp. group_has w grp component) gs"

definition get :: "'v World \<Rightarrow> EntityId \<Rightarrow> Id \<Rightarrow> 'v option" where
  "get w entity component =
     (if \<not> valid w entity then None
      else case (case map_of (components w) entity of
                   None \<Rightarrow> None
                 | Some entityComps \<Rightarrow>
                     if Map_has entityComps component then Some (map_of entityComps component) else None) of
             Some own \<Rightarrow> own
           | None \<Rightarrow>
               (case map_of (entityToGroups w) entity of
                  None \<Rightarrow> None
                | Some gs \<Rightarrow>
                    (case first_group_with w component gs of
                       None \<Rightarrow> None
                     | Some grp \<Rightarrow> group_get w grp component)))"

definition has :: "'v World \<Rightarrow> EntityId \<Rightarrow> Id \<Rightarrow> bool" where
  "has w entity component =
     (if \<not> valid w entity then False
      else if (case map_of (components w) entity of
                 None \<Rightarrow> False
               | Some entityComps \<Rightarrow> Map_has entityComps component) then True
      else case map_of (entityToGroups w) entity of
             None \<Rightarrow> False
           | Some gs \<Rightarrow> first_group_with w component gs \<noteq> None)"

definition remove :: "'v World \<Rightarrow> EntityId \<Rightarrow> Id \<Rightarrow> bool \<times> 'v World" where
  "remove w entity component =
     (if \<not> valid w entity then (False, w)
      else case map_of (components w) entity of
             None \<Rightarrow> (False, w)
           | Some comps \<Rightarrow>
               (let had = Map_has comps component
                in if had
                   then (True, updateEntityArchetype
                                 (w\<lparr>components := AList.update entity (AList.delete component comps) (components w)\<rparr>)
                                 entity)
                   else (False, w)))"

definition createGroup :: "'v World \<Rightarrow> GroupRef \<times> 'v World" where
  "createGroup w =
     (let grp = nextGroupId w
      in (grp, w\<lparr>nextGroupId := grp + 1,
                   groupObjs := AList.update grp
                     \<lparr>g_entities = [], g_components = [],
                      onEntityAdded = snd (connect new_Event WorldListener),
                      onEntityRemoved = snd (connect new_Event WorldListener)\<rparr> (groupObjs w),
                   groups := Set_add grp (groups w)\<rparr>))"

definition removeGroup :: "'v World \<Rightarrow> GroupRef \<Rightarrow> 'v World" where
  "removeGroup w grp =
     (if grp \<notin> set (groups w) then w
      else (let w' = fold (\<lambda>entity w'. removeEntity w' grp entity) (getEntities w grp) w
            in w'\<lparr>groups := Set_delete grp (groups w')\<rparr>))"

definition getGroupsForEntity :: "'v World \<Rightarrow> EntityId \<Rightarrow> GroupRef list" where
  "getGroupsForEntity w entity =
     (case map_of (entityToGroups w) entity of None \<Rightarrow> [] | Some gs \<Rightarrow> gs)"

definition getGroupsWithComponent :: "'v World \<Rightarrow> Id \<Rightarrow> GroupRef list" where
  "getGroupsWithComponent w component = filter (\<lambda>grp. group_has w grp component) (groups w)"

subsection \<open>Queries\<close>

definition getMatchingEntities :: "'v World \<Rightarrow> Id list \<Rightarrow> Id list \<Rightarrow> EntityId list" where
  "getMatchingEntities w required excluded =
     (if required = []
      then fold (\<lambda>entity result.
                   case map_of (components w) entity of
                     None \<Rightarrow> result
                   | Some comps \<Rightarrow>
                       if list_ex (\<lambda>comp. Map_has comps comp) excluded then result
                       else Set_add entity result)
             (entities w) []
      else
        (let matchingArchetypes =
               filter (\<lambda>archetype.
                         (let archetypeComponents = parse_signature archetype
                          in list_all (\<lambda>req. req \<in> set archetypeComponents) required \<and>
                             \<not> list_ex (\<lambda>ex. ex \<in> set archetypeComponents) excluded))
                 (map fst (archetypeToEntities w))
         in fold (\<lambda>archetype result.
                    case map_of (archetypeToEntities w) archetype of
                      None \<Rightarrow> result
                    | Some es \<Rightarrow> fold Set_add es result)
              matchingArchetypes []))"

record Query =
  required :: "Id list"
  excluded :: "Id list"

definition query :: "Id list \<Rightarrow> Query" where
  "query comps = \<lparr>required = comps, excluded = []\<rparr>"

definition query_with :: "Query \<Rightarrow> Id list \<Rightarrow> Query" where
  "query_with q newComps = q\<lparr>required := required q @ newComps\<rparr>"

definition query_without :: "Query \<Rightarrow> Id list \<Rightarrow> Query" where
  "query_without q ex = q\<lparr>excluded := excluded q @ ex\<rparr>"

text \<open>
  \<open>each\<close> returns the argument tuples of the callback invocations, in order: the entity
  and, for every required component, the value found in the entity's own table
  (\<open>None\<close> is \<^verbatim>\<open>undefined\<close>).
\<close>

definition each :: "'v World \<Rightarrow> Query \<Rightarrow> (EntityId \<times> 'v option list) list" where
  "each w q =
     concat (map (\<lambda>entity.
                    case map_of (components w) entity of
                      None \<Rightarrow> []
                    | Some comps \<Rightarrow> [(entity, map (\<lambda>c. map_of comps c) (required q))])
               (getMatchingEntities w (required q) (excluded q)))"

definition collect :: "'v World \<Rightarrow> Query \<Rightarrow> (EntityId \<times> 'v option list) list" where
  "collect w q = fold (\<lambda>entry results. results @ [entry]) (each w q) []"

subsection \<open>Snapshots (snapshot.ts) and revert\<close>

record 'v Snapshot =
  snap_id :: nat
  timestamp :: nat
  entityStates :: "(EntityId \<times> (Id \<times> 'v) list) list"
  snap_components :: "Id list option"

text \<open>
  \<open>createSnapshot\<close> receives the value of the \<^verbatim>\<open>generateId\<close> counter and the clock
  reading. \<^verbatim>\<open>componentsMap.get(entity)!\<close> asserts that the table exists; reading
  from a missing table is a run-time error.
\<close>

definition clone_filtered :: "Id list \<Rightarrow> (Id \<times> 'v) list \<Rightarrow> (Id \<times> 'v) list" where
  "clone_filtered filt comps =
     fold (\<lambda>c cloned. case map_of comps c of
                         None \<Rightarrow> cloned
                       | Some val \<Rightarrow> AList.update c (deepClone val) cloned)
       filt []"

definition clone_all :: "(Id \<times> 'v) list \<Rightarrow> (Id \<times> 'v) list" where
  "clone_all comps = fold (\<lambda>(c, val) cloned. AList.update c (deepClone val) cloned) comps []"

fun capture ::
  "(EntityId \<times> (Id \<times> 'v) list) list \<Rightarrow> Id list option \<Rightarrow> EntityId list \<Rightarrow>
   (EntityId \<times> (Id \<times> 'v) list) list \<Rightarrow> error + (EntityId \<times> (Id \<times> 'v) list) list" where
  "capture componentsMap filt [] states = Inr states"
| "capture componentsMap filt (entity # rest) states =
     (case map_of componentsMap entity of
        None \<Rightarrow> Inl (NoComponentTable entity)
      | Some comps \<Rightarrow>
          (if (case filt of None \<Rightarrow> False | Some cs \<Rightarrow> cs \<noteq> [])
           then (let cloned = clone_filtered (case filt of None \<Rightarrow> [] | Some cs \<Rightarrow> cs) comps
                 in if cloned \<noteq> []
                    then capture componentsMap filt rest (AList.update entity cloned states)
                    else capture componentsMap filt rest states)
           else capture componentsMap filt rest (AList.update entity (clone_all comps) states)))"

definition createSnapshot ::
  "nat \<Rightarrow> nat \<Rightarrow> EntityId list \<Rightarrow> (EntityId \<times> (Id \<times> 'v) list) list \<Rightarrow> Id list option \<Rightarrow>
   error + 'v Snapshot" where
  "createSnapshot idCounter clock ents componentsMap filt =
     (case capture componentsMap filt ents [] of
        Inl e \<Rightarrow> Inl e
      | Inr states \<Rightarrow>
          Inr \<lparr>snap_id = fst (generateId idCounter), timestamp = clock,
               entityStates = states, snap_components = filt\<rparr>)"

text \<open>
  \<^verbatim>\<open>WorldImpl.snapshot\<close> is declared to return \<^verbatim>\<open>Snapshot | undefined\<close>; \<open>None\<close>
  stands for \<^verbatim>\<open>undefined\<close>.
\<close>

definition snapshot :: "'v World \<Rightarrow> nat \<Rightarrow> nat \<Rightarrow> Id list option \<Rightarrow> error + 'v Snapshot option" where
  "snapshot w idCounter clock filt =
     (case createSnapshot idCounter clock (entities w) (components w) filt of
        Inl e \<Rightarrow> Inl e
      | Inr s \<Rightarrow> Inr (Some s))"

definition isPartial :: "'v Snapshot \<Rightarrow> bool" where
  "isPartial s = (case snap_components s of None \<Rightarrow> False | Some cs \<Rightarrow> cs \<noteq> [])"

definition despawn_unlisted :: "'v Snapshot \<Rightarrow> 'v World \<Rightarrow> 'v World" where
  "despawn_unlisted s w =
     fold (\<lambda>entity w'. if \<not> Map_has (entityStates s) entity then snd (despawn w' entity) else w')
       (entities w) w"

definition delete_unlisted :: "(Id \<times> 'v) list \<Rightarrow> (Id \<times> 'v) list \<Rightarrow> (Id \<times> 'v) list" where
  "delete_unlisted snapshotComps currentComps =
     fold (\<lambda>c cur. if \<not> Map_has snapshotComps c then AList.delete c cur else cur)
       (map fst currentComps) currentComps"

definition restore_components ::
  "'v Snapshot \<Rightarrow> (Id \<times> 'v) list \<Rightarrow> (Id \<times> 'v) list \<Rightarrow> (Id \<times> 'v) list" where
  "restore_components s snapshotComps currentComps =
     fold (\<lambda>(c, val) cur.
             if \<not> isPartial s \<or> snap_components s = None \<or>
                c \<in> set (case snap_components s of None \<Rightarrow> [] | Some cs \<Rightarrow> cs)
             then AList.update c (deepClone val) cur
             else cur)
       snapshotComps currentComps"

text \<open>
  The body of the loop over \<^verbatim>\<open>snapshot.entityStates\<close> either goes on to the next entry
  (\<^verbatim>\<open>continue\<close>, or the end of the body) or leaves \<^verbatim>\<open>revert\<close> altogether
  (\<^verbatim>\<open>if (!currentComps) return\<close>).
\<close>

datatype 'a loop_step = Continue 'a | Return 'a

definition restore_entity ::
  "'v Snapshot \<Rightarrow> EntityId \<times> (Id \<times> 'v) list \<Rightarrow> 'v World \<Rightarrow> 'v World loop_step" where
  "restore_entity s entry w =
     (let entity = fst entry; snapshotComps = snd entry
      in if entity \<notin> set (entities w) \<and> snapshotComps = [] then Continue w
         else
           (let w1 = (if entity \<notin> set (entities w)
                      then w\<lparr>entities := Set_add entity (entities w),
                             components := AList.update entity [] (components w)\<rparr>
                      else w)
            in case map_of (components w1) entity of
                 None \<Rightarrow> Return w1
               | Some currentComps \<Rightarrow>
                   (let c1 = (if \<not> isPartial s then delete_unlisted snapshotComps currentComps
                              else currentComps);
                        c2 = restore_components s snapshotComps c1
                    in Continue (w1\<lparr>components := AList.update entity c2 (components w1)\<rparr>))))"

fun restore_entities :: "'v Snapshot \<Rightarrow> (EntityId \<times> (Id \<times> 'v) list) list \<Rightarrow> 'v World \<Rightarrow> 'v World" where
  "restore_entities s [] w = w"
| "restore_entities s (entry # rest) w =
     (case restore_entity s entry w of
        Return w' \<Rightarrow> w'
      | Continue w' \<Rightarrow> restore_entities s rest w')"

definition revert :: "'v Snapshot \<Rightarrow> 'v World \<Rightarrow> 'v World" where
  "revert s w =
     (let w1 = (if \<not> isPartial s then despawn_unlisted s w else w)
      in restore_entities s (entityStates s) w1)"

subsection \<open>Sequences of operations\<close>

text \<open>
  The four mutations of the world store. A \<^verbatim>\<open>set\<close> on an entity that is not live
  raises; the caller's sequence goes on with the world unchanged.
\<close>

datatype 'v mutation =
  Spawn
  | Despawn EntityId
  | SetComponent EntityId Id 'v
  | RemoveComponent EntityId Id

fun mutate :: "'v World \<Rightarrow> 'v mutation \<Rightarrow> 'v World" where
  "mutate w Spawn = snd (spawn w)"
| "mutate w (Despawn e) = snd (despawn w e)"
| "mutate w (SetComponent e c v) = (case world_set w e c v of Inl err \<Rightarrow> w | Inr w' \<Rightarrow> w')"
| "mutate w (RemoveComponent e c) = snd (remove w e c)"

definition mutate_all :: "'v World \<Rightarrow> 'v mutation list \<Rightarrow> 'v World" where
  "mutate_all w ms = fold (\<lambda>m w'. mutate w' m) ms w"

text \<open>
  A session is a world together with the snapshots taken from it so far and the
  \<^verbatim>\<open>generateId\<close> counter. Its operations are the calls a client can make on the
  world, on the groups it created and on the public events of these groups;
  \<open>Revert k\<close> reverts to the \<open>k\<close>-th snapshot taken.
\<close>

record 'v session =
  world :: "'v World"
  taken :: "'v Snapshot list"
  idCounter :: nat

datatype 'v operation =
  Mutate "'v mutation"
  | TakeSnapshot "Id list option" nat
  | Revert nat
  | CreateGroup
  | RemoveGroup GroupRef
  | AddEntity GroupRef EntityId
  | RemoveEntity GroupRef EntityId
  | GroupSet GroupRef Id 'v
  | GroupRemove GroupRef Id
  | ClearAdded GroupRef
  | ClearRemoved GroupRef
  | ObserveAdded GroupRef nat
  | ObserveRemoved GroupRef nat
  | FireAdded GroupRef EntityId
  | FireRemoved GroupRef EntityId

definition new_session :: "'v session" where
  "new_session = \<lparr>world = createWorld, taken = [], idCounter = 1\<rparr>"

fun perform :: "'v session \<Rightarrow> 'v operation \<Rightarrow> 'v session" where
  "perform s (Mutate m) = s\<lparr>world := mutate (world s) m\<rparr>"
| "perform s (TakeSnapshot filt clock) =
     (case snapshot (world s) (idCounter s) clock filt of
        Inr (Some snap) \<Rightarrow> s\<lparr>taken := taken s @ [snap], idCounter := snd (generateId (idCounter s))\<rparr>
      | _ \<Rightarrow> s)"
| "perform s (Revert k) =
     (if k < length (taken s) then s\<lparr>world := revert (taken s ! k) (world s)\<rparr> else s)"
| "perform s CreateGroup = s\<lparr>world := snd (createGroup (world s))\<rparr>"
| "perform s (RemoveGroup g) = s\<lparr>world := removeGroup (world s) g\<rparr>"
| "perform s (AddEntity g e) = s\<lparr>world := addEntity (world s) g e\<rparr>"
| "perform s (RemoveEntity g e) = s\<lparr>world := removeEntity (world s) g e\<rparr>"
| "perform s (GroupSet g c v) = s\<lparr>world := group_set (world s) g c v\<rparr>"
| "perform s (GroupRemove g c) = s\<lparr>world := snd (group_remove (world s) g c)\<rparr>"
| "perform s (ClearAdded g) = s\<lparr>world := clear_onEntityAdded (world s) g\<rparr>"
| "perform s (ClearRemoved g) = s\<lparr>world := clear_onEntityRemoved (world s) g\<rparr>"
| "perform s (ObserveAdded g n) = s\<lparr>world := observe_onEntityAdded (world s) g n\<rparr>"
| "perform s (ObserveRemoved g n) = s\<lparr>world := observe_onEntityRemoved (world s) g n\<rparr>"
| "perform s (FireAdded g e) = s\<lparr>world := fire_onEntityAdded (world s) g e\<rparr>"
| "perform s (FireRemoved g e) = s\<lparr>world := fire_onEntityRemoved (world s) g e\<rparr>"

definition perform_all :: "'v session \<Rightarrow> 'v operation list \<Rightarrow> 'v session" where
  "perform_all s ops = fold (\<lambda>op s'. perform s' op) ops s"

text \<open>
  \<open>spawn_log s ops\<close> lists, for every \<^verbatim>\<open>spawn()\<close> call made while \<open>ops\<close> runs from \<open>s\<close>,
  the id that the call returns and whether that id was live when the call was made.
\<close>

fun spawn_log :: "'v session \<Rightarrow> 'v operation list \<Rightarrow> (EntityId \<times> bool) list" where
  "spawn_log s [] = []"
| "spawn_log s (op # ops) =
     (if op = Mutate Spawn
      then [(fst (spawn (world s)), valid (world s) (fst (spawn (world s))))]
      else []) @ spawn_log (perform s op) ops"

subsection \<open>Observations and invariants used in the statements\<close>

text \<open>The value of a component in the entity's own table, without the group overlay.\<close>

definition own :: "'v World \<Rightarrow> EntityId \<Rightarrow> Id \<Rightarrow> 'v option" where
  "own w entity component =
     (case map_of (components w) entity of None \<Rightarrow> None | Some comps \<Rightarrow> map_of comps component)"

text \<open>The signatures of the archetype buckets that hold an entity.\<close>

definition buckets_of :: "'v World \<Rightarrow> EntityId \<Rightarrow> string list" where
  "buckets_of w entity = map fst (filter (\<lambda>(sig, es). entity \<in> set es) (archetypeToEntities w))"

text \<open>
  Invariant (a) of the data model: the live entities are exactly the entities with a
  component table; and every live entity was issued by the counter.
\<close>

definition tables_match :: "'v World \<Rightarrow> bool" where
  "tables_match w = (set (entities w) = fst ` set (components w))"

definition ids_issued :: "'v World \<Rightarrow> bool" where
  "ids_issued w = (\<forall>e \<in> set (entities w). e < nextEntityId w)"

text \<open>
  Whether the listener that \<^verbatim>\<open>createGroup\<close> connected is among the connections of an
  event, and of the two events of a group object.
\<close>

definition listening :: "listener Event \<Rightarrow> bool" where
  "listening ev = (WorldListener \<in> snd ` set (connections ev))"

definition added_listener_connected :: "'v World \<Rightarrow> GroupRef \<Rightarrow> bool" where
  "added_listener_connected w g =
     (case map_of (groupObjs w) g of None \<Rightarrow> False | Some obj \<Rightarrow> listening (onEntityAdded obj))"

definition removed_listener_connected :: "'v World \<Rightarrow> GroupRef \<Rightarrow> bool" where
  "removed_listener_connected w g =
     (case map_of (groupObjs w) g of None \<Rightarrow> False | Some obj \<Rightarrow> listening (onEntityRemoved obj))"

text \<open>
  The calls that can put the entity-to-groups index out of step with the membership of
  the groups are \<^verbatim>\<open>disconnectAll\<close> on a group's \<^verbatim>\<open>onEntityAdded\<close> event and firing a
  group's \<^verbatim>\<open>onEntityRemoved\<close> event by hand; \<open>keeps_index\<close> holds of every other
  operation.
\<close>

definition keeps_index :: "'v operation \<Rightarrow> bool" where
  "keeps_index op = (case op of ClearAdded g \<Rightarrow> False | FireRemoved g e \<Rightarrow> False | _ \<Rightarrow> True)"

subsection \<open>Example states\<close>

text \<open>One entity, id 1, with component 1 set to 100; and the full snapshot of that world.\<close>

definition health_world :: "nat World" where
  "health_world = mutate_all createWorld [Spawn, SetComponent 1 1 100]"

definition health_snapshot :: "nat Snapshot" where
  "health_snapshot =
     \<lparr>snap_id = 1, timestamp = 0, entityStates = [(1, [(1, 100)])], snap_components = None\<rparr>"

text \<open>
  Entity 1 owns component 3 and belongs to group 1, whose table sets component 7
  (the team) to \<open>''red''\<close>.
\<close>

definition team_world :: "string World" where
  "team_world =
     world (perform_all new_session
       [Mutate Spawn, CreateGroup, GroupSet 1 7 ''red'', AddEntity 1 1,
        Mutate (SetComponent 1 3 ''hp'')])"

text \<open>The full snapshot of \<open>team_world\<close>.\<close>

definition team_snapshot :: "string Snapshot" where
  "team_snapshot =
     \<lparr>snap_id = 1, timestamp = 0, entityStates = [(1, [(3, ''hp'')])], snap_components = None\<rparr>"

text \<open>
  A world with one group, id 1, whose table sets component 7; and the world with one
  group after \<^verbatim>\<open>g.onEntityAdded.disconnectAll()\<close>.
\<close>

definition red_group_world :: "string World" where
  "red_group_world = world (perform_all new_session [CreateGroup, GroupSet 1 7 ''red''])"

definition muted_world :: "string World" where
  "muted_world = world (perform_all new_session [CreateGroup, ClearAdded 1])"

text \<open>
  An event with three connections, ids 0, 1 and 2, of the callbacks 0, 1 and 2; and
  tables of callback code: in each, only callback 1 does something to the event. It
  disposes of the subscription with id 2; of its own; connects a callback; disposes of
  subscription 0 and raises. In the last table every callback connects a callback like
  itself.
\<close>

definition three_handlers :: "nat Event" where
  "three_handlers = snd (connect (snd (connect (snd (connect new_Event 0)) 1)) 2)"


definition self_disconnecting_code :: "nat \<Rightarrow> action list" where
  "self_disconnecting_code cb = (if cb = 1 then [DisconnectA 1] else [])"

definition connecting_code :: "nat \<Rightarrow> action list" where
  "connecting_code cb = (if cb = 1 then [ConnectA 0] else [])"

definition raising_code :: "nat \<Rightarrow> action list" where
  "raising_code cb = (if cb = 1 then [DisconnectA 0, Raise] else [])"

definition relentless_code :: "nat \<Rightarrow> action list" where
  "relentless_code cb = [ConnectA cb]"

subsection \<open>Auxiliary notions for the proofs\<close>

text \<open>
  Every member of a group object is indexed under that group in \<open>entityToGroups\<close>;
  and the listener of \<open>createGroup\<close> is the first connection of the
  \<^verbatim>\<open>onEntityAdded\<close> event of every group object.
\<close>

definition members_indexed :: "'v World \<Rightarrow> bool" where
  "members_indexed w =
     (\<forall>g \<in> fst ` set (groupObjs w). \<forall>e \<in> set (getEntities w g). g \<in> set (getGroupsForEntity w e))"

definition world_listener_first :: "listener Event \<Rightarrow> bool" where
  "world_listener_first ev = (map_of (connections ev) 0 = Some WorldListener \<and> 0 < nextId ev)"

definition added_event :: "'v World \<Rightarrow> GroupRef \<Rightarrow> listener Event option" where
  "added_event w g = map_option onEntityAdded (map_of (groupObjs w) g)"

definition listeners_first :: "'v World \<Rightarrow> bool" where
  "listeners_first w = (\<forall>g ev. added_event w g = Some ev \<longrightarrow> world_listener_first ev)"

text \<open>
  The walk of \<open>forEach\<close>: the connections still to visit, what holds of the event and
  the callbacks invoked so far, relative to the event \<open>ev0\<close> as it was fired, and what
  holds when the walk ends.
\<close>

definition pending :: "nat Event \<Rightarrow> nat list \<Rightarrow> nat set" where
  "pending ev invoked = {k \<in> set (connection_ids ev). k \<notin> set invoked}"




text \<open>The world that a step of a loop body hands on, whichever way the body ends.\<close>

definition step_result :: "'a loop_step \<Rightarrow> 'a" where
  "step_result r = (case r of Continue w \<Rightarrow> w | Return w \<Rightarrow> w)"

text \<open>
  The live entities carry ids issued by the counter, and so do the entities recorded in
  the snapshots taken in the session.
\<close>

definition session_ok :: "'v session \<Rightarrow> bool" where
  "session_ok s =
     (ids_issued (world s) \<and>
      (\<forall>S \<in> set (taken s). \<forall>e \<in> fst ` set (entityStates S). e < nextEntityId (world s)))"


text \<open>A session with one entity owning component 1, and its full snapshot taken.\<close>

definition respawn_session :: "nat session" where
  "respawn_session =
     perform_all new_session [Mutate Spawn, Mutate (SetComponent 1 1 100), TakeSnapshot None 0]"

text \<open>Whether \<open>revert\<close> writes a captured component back: the test of its inner loop.\<close>

definition allowed :: "'v Snapshot \<Rightarrow> Id \<Rightarrow> bool" where
  "allowed s c =
     (\<not> isPartial s \<or> snap_components s = None \<or>
      c \<in> set (case snap_components s of None \<Rightarrow> [] | Some cs \<Rightarrow> cs))"


text \<open>
  Entity 1 owns components 1 (health) and 2, entity 2 owns component 2; the snapshot
  of that world filtered by component 1; and the world after later changes.
\<close>

definition filtered_world :: "nat World" where
  "filtered_world =
     mutate_all createWorld
       [Spawn, SetComponent 1 1 100, SetComponent 1 2 5, Spawn, SetComponent 2 2 7]"

definition filtered_snapshot :: "nat Snapshot" where
  "filtered_snapshot =
     \<lparr>snap_id = 1, timestamp = 0, entityStates = [(1, [(1, 100)])], snap_components = Some [1]\<rparr>"

definition changed_world :: "nat World" where
  "changed_world =
     mutate_all filtered_world
       [SetComponent 1 1 50, SetComponent 1 2 9, Spawn, SetComponent 3 1 1, Despawn 2]"

text \<open>
  Every component table has each component id once; a well-formed world has matching
  tables, such tables, and issued ids. Every world reached from a new one is well
  formed (\<open>reachable_well_formed\<close> below).
\<close>

definition tables_distinct :: "'v World \<Rightarrow> bool" where
  "tables_distinct w = (\<forall>(e, t) \<in> set (components w). distinct (map fst t))"

definition well_formed :: "'v World \<Rightarrow> bool" where
  "well_formed w = (tables_match w \<and> tables_distinct w \<and> ids_issued w)"

text \<open>
  What the mutations leave alone between a world \<open>w0\<close> and a later world \<open>w\<close>: the
  counter does not go back, an entity issued before \<open>w0\<close> and live in \<open>w\<close> was live in \<open>w0\<close>
  with the same groups, an entity that was live and is not any more has no groups, and
  the component tables of the groups are the same.
\<close>

definition carried_over :: "'v World \<Rightarrow> 'v World \<Rightarrow> bool" where
  "carried_over w0 w =
     (nextEntityId w0 \<le> nextEntityId w \<and>
      (\<forall>e. valid w e \<and> e < nextEntityId w0 \<longrightarrow>
             valid w0 e \<and> getGroupsForEntity w e = getGroupsForEntity w0 e) \<and>
      (\<forall>e. valid w0 e \<and> \<not> valid w e \<longrightarrow> getGroupsForEntity w e = []) \<and>
      (\<forall>g. map_option g_components (map_of (groupObjs w) g) =
            map_option g_components (map_of (groupObjs w0) g)))"

text \<open>
  The table that the body of the restore loop writes for an entry: the captured
  components put over the current table (without its unlisted components when the
  snapshot is full).
\<close>

definition restored_table :: "'v Snapshot \<Rightarrow> EntityId \<times> (Id \<times> 'v) list \<Rightarrow> 'v World \<Rightarrow> (Id \<times> 'v) list" where
  "restored_table s entry w =
     (let cur = (if fst entry \<in> set (entities w)
                 then (case map_of (components w) (fst entry) of None \<Rightarrow> [] | Some t \<Rightarrow> t)
                 else [])
      in restore_components s (snd entry)
           (if \<not> isPartial s then delete_unlisted (snd entry) cur else cur))"

text \<open>
  A world with one entity that owns nothing, and its full snapshot; and some mutations
  of \<open>team_world\<close>.
\<close>

definition lone_world :: "nat World" where
  "lone_world = mutate_all createWorld [Spawn]"

definition lone_snapshot :: "nat Snapshot" where
  "lone_snapshot = \<lparr>snap_id = 1, timestamp = 0, entityStates = [(1, [])], snap_components = None\<rparr>"

definition shuffle :: "string mutation list" where
  "shuffle = [SetComponent 1 3 ''x'', Spawn, SetComponent 2 4 ''y'', RemoveComponent 1 3]"

section \<open>Properties\<close>

subsection \<open>Frame lemmas for the archetype update\<close>

lemma updateEntityArchetype_frame [simp]:
  "components (updateEntityArchetype w e) = components w"
  "entities (updateEntityArchetype w e) = entities w"
  "groupObjs (updateEntityArchetype w e) = groupObjs w"
  "entityToGroups (updateEntityArchetype w e) = entityToGroups w"
  "groups (updateEntityArchetype w e) = groups w"
  "nextEntityId (updateEntityArchetype w e) = nextEntityId w"
  "nextGroupId (updateEntityArchetype w e) = nextGroupId w"
  by (simp_all add: updateEntityArchetype_def Let_def split: option.splits)

subsection \<open>The archetype index after despawn and revert\<close>

text \<open>
  C1 (archetype-index consistency in every reachable state; after \<open>despawn(e)\<close> returns
  true, \<open>e\<close> is in no bucket). Evaluated on the code: \<open>set\<close> and \<open>remove\<close> call
  \<open>updateEntityArchetype\<close>, \<open>despawn\<close> and \<open>revert\<close> do not. Despawning the entity of
  \<open>health_world\<close> returns true and leaves it in the bucket \<open>''1''\<close>; and after removing
  its component and reverting to \<open>health_snapshot\<close>, the live entity owns component 1
  again and lies in no bucket.
\<close>

theorem despawn_and_revert_leave_stale_buckets:
  "fst (despawn health_world 1) \<and>
   \<not> valid (snd (despawn health_world 1)) 1 \<and>
   buckets_of (snd (despawn health_world 1)) 1 = [''1''] \<and>
   snapshot health_world 1 0 None = Inr (Some health_snapshot) \<and>
   valid (revert health_snapshot (mutate health_world (RemoveComponent 1 1))) 1 \<and>
   own (revert health_snapshot (mutate health_world (RemoveComponent 1 1))) 1 1 = Some 100 \<and>
   buckets_of (revert health_snapshot (mutate health_world (RemoveComponent 1 1))) 1 = []"
  by code_simp

text \<open>
  C2 (a query invokes its callback exactly once per live entity that owns every required
  component and no excluded one, with the values of the own table). Evaluated on the
  code after a revert: \<open>query [1]\<close> finds its entities through the archetype buckets,
  which \<open>revert\<close> leaves stale. After \<open>remove(1, 1)\<close> and \<open>revert\<close>, entity 1 owns
  component 1 with value 100 and the query does not visit it; after \<open>set(1, 2, 5)\<close> and
  \<open>revert\<close>, the entity does not own component 2 and \<open>query [2]\<close> visits it with an
  undefined value.
\<close>

theorem query_after_revert_uses_stale_buckets:
  "snapshot health_world 1 0 None = Inr (Some health_snapshot) \<and>
   valid (revert health_snapshot (mutate health_world (RemoveComponent 1 1))) 1 \<and>
   own (revert health_snapshot (mutate health_world (RemoveComponent 1 1))) 1 1 = Some 100 \<and>
   each (revert health_snapshot (mutate health_world (RemoveComponent 1 1))) (query [1]) = [] \<and>
   collect (revert health_snapshot (mutate health_world (RemoveComponent 1 1))) (query [1]) = [] \<and>
   own (revert health_snapshot (mutate health_world (SetComponent 1 2 5))) 1 2 = None \<and>
   each (revert health_snapshot (mutate health_world (SetComponent 1 2 5))) (query [2]) = [(1, [None])]"
  by code_simp

subsection \<open>Taking a snapshot\<close>

text \<open>
  C4 (\<open>snapshot\<close> returns absent if and only if no entity is live). Evaluated on the
  code: \<open>createSnapshot\<close> always builds a snapshot record, so the result is never absent;
  in the world without entities it is a snapshot with an empty entity-state map.
\<close>

theorem snapshot_of_empty_world_is_not_absent:
  "snapshot (createWorld :: 'v World) 1 0 None =
     Inr (Some \<lparr>snap_id = 1, timestamp = 0, entityStates = [], snap_components = None\<rparr>) \<and>
   snapshot w idc clock filt \<noteq> Inr None"
  by (simp add: snapshot_def createSnapshot_def createWorld_def generateId_def split: sum.splits)

subsection \<open>Removing a component\<close>

text \<open>
  C7: \<open>remove(e, c)\<close> returns true exactly when \<open>e\<close> is live and \<open>c\<close> is in its own
  table, and then deletes \<open>c\<close> from that table and nothing else from any own table;
  when it returns false the world is unchanged; in both cases no group object (member
  set or component table) and no group membership index changes.
\<close>

theorem remove_acts_on_own_table_only:
  "fst (remove w e c) = (valid w e \<and> own w e c \<noteq> None) \<and>
   (\<not> fst (remove w e c) \<longrightarrow> snd (remove w e c) = w) \<and>
   (\<forall>e' c'. own (snd (remove w e c)) e' c' =
              (if e' = e \<and> c' = c \<and> fst (remove w e c) then None else own w e' c')) \<and>
   groupObjs (snd (remove w e c)) = groupObjs w \<and>
   entityToGroups (snd (remove w e c)) = entityToGroups w \<and>
   entities (snd (remove w e c)) = entities w"
  by (auto simp add: remove_def own_def Map_has_def Let_def update_conv' delete_conv'
      split: option.splits)

theorem remove_acts_on_own_table_only_witness:
  "has team_world 1 7 \<and> get team_world 1 7 = Some ''red'' \<and>
   \<not> fst (remove team_world 1 7) \<and> snd (remove team_world 1 7) = team_world \<and>
   fst (remove team_world 1 3) \<and> own (snd (remove team_world 1 3)) 1 3 = None \<and>
   group_get (snd (remove team_world 1 3)) 1 7 = Some ''red'' \<and>
   \<not> fst (remove team_world 2 3)"
proof -
  have overlay: "has team_world 1 7" "get team_world 1 7 = Some ''red''"
    by code_simp+
  have absent: "\<not> (valid team_world 1 \<and> own team_world 1 7 \<noteq> None)"
    by code_simp
  have present: "valid team_world 1 \<and> own team_world 1 3 \<noteq> None"
    by code_simp
  have dead: "\<not> valid team_world 2"
    by code_simp
  have before: "group_get team_world 1 7 = Some ''red''"
    by code_simp
  have same: "group_get (snd (remove team_world 1 3)) 1 7 = group_get team_world 1 7"
    using remove_acts_on_own_table_only [of team_world 1 3] by (simp add: group_get_def)
  show ?thesis
    using remove_acts_on_own_table_only [of team_world 1 7]
      remove_acts_on_own_table_only [of team_world 1 3]
      remove_acts_on_own_table_only [of team_world 2 3]
      overlay absent present dead before same
    by simp
qed

subsection \<open>Group membership and despawn\<close>

lemma listener_frame [simp]:
  "entities (onEntityAdded_listener w g e) = entities w"
  "components (onEntityAdded_listener w g e) = components w"
  "nextEntityId (onEntityAdded_listener w g e) = nextEntityId w"
  "nextGroupId (onEntityAdded_listener w g e) = nextGroupId w"
  "groups (onEntityAdded_listener w g e) = groups w"
  "groupObjs (onEntityAdded_listener w g e) = groupObjs w"
  "archetypeToEntities (onEntityAdded_listener w g e) = archetypeToEntities w"
  "entityToArchetype (onEntityAdded_listener w g e) = entityToArchetype w"
  "entities (onEntityRemoved_listener w g e) = entities w"
  "components (onEntityRemoved_listener w g e) = components w"
  "nextEntityId (onEntityRemoved_listener w g e) = nextEntityId w"
  "nextGroupId (onEntityRemoved_listener w g e) = nextGroupId w"
  "groups (onEntityRemoved_listener w g e) = groups w"
  "groupObjs (onEntityRemoved_listener w g e) = groupObjs w"
  "archetypeToEntities (onEntityRemoved_listener w g e) = archetypeToEntities w"
  "entityToArchetype (onEntityRemoved_listener w g e) = entityToArchetype w"
  by (simp_all add: onEntityAdded_listener_def onEntityRemoved_listener_def Let_def
      split: option.splits)

lemma fire_listeners_frame:
  assumes "\<And>w'. f (L w') = f w'"
  shows "f (fire_listeners ev L w) = f w"
proof -
  have "f (fold (\<lambda>(cid, cb) w'. case cb of WorldListener \<Rightarrow> L w' | Observer n \<Rightarrow> w') cs w) = f w"
    for cs
    by (induction cs arbitrary: w) (auto simp add: assms split: listener.splits)
  then show ?thesis by (simp add: fire_listeners_def)
qed

lemma getGroupsForEntity_listener:
  "getGroupsForEntity (onEntityAdded_listener w g e) e' =
     (if e' = e then Set_add g (getGroupsForEntity w e) else getGroupsForEntity w e')"
  "getGroupsForEntity (onEntityRemoved_listener w g e) e' =
     (if e' = e then removeAll g (getGroupsForEntity w e) else getGroupsForEntity w e')"
  by (auto simp add: onEntityAdded_listener_def onEntityRemoved_listener_def getGroupsForEntity_def
      Let_def Map_has_def Set_delete_def update_conv' delete_conv' split: option.splits)

lemma fire_listeners_groups:
  assumes step: "\<And>w' x. getGroupsForEntity (L w') x =
                   (if x = e then F (getGroupsForEntity w' e) else getGroupsForEntity w' x)"
    and idem: "\<And>gs. F (F gs) = F gs"
  shows "getGroupsForEntity (fire_listeners ev L w) e' =
           (if e' = e \<and> listening ev then F (getGroupsForEntity w e) else getGroupsForEntity w e')"
proof -
  have "getGroupsForEntity
          (fold (\<lambda>(cid, cb) w'. case cb of WorldListener \<Rightarrow> L w' | Observer n \<Rightarrow> w') cs w) e' =
        (if e' = e \<and> WorldListener \<in> snd ` set cs then F (getGroupsForEntity w e)
         else getGroupsForEntity w e')" for cs
  proof (induction cs arbitrary: w)
    case Nil
    then show ?case by simp
  next
    case (Cons c cs)
    obtain cid cb where c: "c = (cid, cb)" by (cases c)
    show ?case
    proof (cases cb)
      case WorldListener
      with Cons.IH [of "L w"] c show ?thesis by (simp add: step idem)
    next
      case (Observer n)
      with Cons.IH [of w] c show ?thesis by simp
    qed
  qed
  from this [of "connections ev"] show ?thesis
    by (simp add: fire_listeners_def listening_def)
qed

lemma removeEntity_frame [simp]:
  "entities (removeEntity w g e) = entities w"
  "components (removeEntity w g e) = components w"
  "nextEntityId (removeEntity w g e) = nextEntityId w"
  "nextGroupId (removeEntity w g e) = nextGroupId w"
  "groups (removeEntity w g e) = groups w"
  "archetypeToEntities (removeEntity w g e) = archetypeToEntities w"
  "entityToArchetype (removeEntity w g e) = entityToArchetype w"
  by (simp_all add: removeEntity_def fire_listeners_frame split: option.splits)

lemma addEntity_frame [simp]:
  "entities (addEntity w g e) = entities w"
  "components (addEntity w g e) = components w"
  "nextEntityId (addEntity w g e) = nextEntityId w"
  "nextGroupId (addEntity w g e) = nextGroupId w"
  "groups (addEntity w g e) = groups w"
  "archetypeToEntities (addEntity w g e) = archetypeToEntities w"
  "entityToArchetype (addEntity w g e) = entityToArchetype w"
  by (simp_all add: addEntity_def fire_listeners_frame split: option.splits)

lemma event_calls_frame [simp]:
  "entities (clear_onEntityAdded w g) = entities w"
  "components (clear_onEntityAdded w g) = components w"
  "nextEntityId (clear_onEntityAdded w g) = nextEntityId w"
  "nextGroupId (clear_onEntityAdded w g) = nextGroupId w"
  "groups (clear_onEntityAdded w g) = groups w"
  "archetypeToEntities (clear_onEntityAdded w g) = archetypeToEntities w"
  "entityToArchetype (clear_onEntityAdded w g) = entityToArchetype w"
  "entities (clear_onEntityRemoved w g) = entities w"
  "components (clear_onEntityRemoved w g) = components w"
  "nextEntityId (clear_onEntityRemoved w g) = nextEntityId w"
  "nextGroupId (clear_onEntityRemoved w g) = nextGroupId w"
  "groups (clear_onEntityRemoved w g) = groups w"
  "archetypeToEntities (clear_onEntityRemoved w g) = archetypeToEntities w"
  "entityToArchetype (clear_onEntityRemoved w g) = entityToArchetype w"
  "entities (observe_onEntityAdded w g n) = entities w"
  "components (observe_onEntityAdded w g n) = components w"
  "nextEntityId (observe_onEntityAdded w g n) = nextEntityId w"
  "nextGroupId (observe_onEntityAdded w g n) = nextGroupId w"
  "groups (observe_onEntityAdded w g n) = groups w"
  "archetypeToEntities (observe_onEntityAdded w g n) = archetypeToEntities w"
  "entityToArchetype (observe_onEntityAdded w g n) = entityToArchetype w"
  "entities (observe_onEntityRemoved w g n) = entities w"
  "components (observe_onEntityRemoved w g n) = components w"
  "nextEntityId (observe_onEntityRemoved w g n) = nextEntityId w"
  "nextGroupId (observe_onEntityRemoved w g n) = nextGroupId w"
  "groups (observe_onEntityRemoved w g n) = groups w"
  "archetypeToEntities (observe_onEntityRemoved w g n) = archetypeToEntities w"
  "entityToArchetype (observe_onEntityRemoved w g n) = entityToArchetype w"
  "entities (fire_onEntityAdded w g e) = entities w"
  "components (fire_onEntityAdded w g e) = components w"
  "nextEntityId (fire_onEntityAdded w g e) = nextEntityId w"
  "nextGroupId (fire_onEntityAdded w g e) = nextGroupId w"
  "groups (fire_onEntityAdded w g e) = groups w"
  "archetypeToEntities (fire_onEntityAdded w g e) = archetypeToEntities w"
  "entityToArchetype (fire_onEntityAdded w g e) = entityToArchetype w"
  "entities (fire_onEntityRemoved w g e) = entities w"
  "components (fire_onEntityRemoved w g e) = components w"
  "nextEntityId (fire_onEntityRemoved w g e) = nextEntityId w"
  "nextGroupId (fire_onEntityRemoved w g e) = nextGroupId w"
  "groups (fire_onEntityRemoved w g e) = groups w"
  "archetypeToEntities (fire_onEntityRemoved w g e) = archetypeToEntities w"
  "entityToArchetype (fire_onEntityRemoved w g e) = entityToArchetype w"
  by (simp_all add: clear_onEntityAdded_def clear_onEntityRemoved_def observe_onEntityAdded_def
      observe_onEntityRemoved_def fire_onEntityAdded_def fire_onEntityRemoved_def
      fire_listeners_frame split: option.splits)

lemma groupObjs_removeEntity:
  "groupObjs (removeEntity w g e) =
     (case map_of (groupObjs w) g of
        None \<Rightarrow> groupObjs w
      | Some obj \<Rightarrow>
          if e \<in> set (g_entities obj)
          then AList.update g (obj\<lparr>g_entities := Set_delete e (g_entities obj)\<rparr>) (groupObjs w)
          else groupObjs w)"
  by (simp add: removeEntity_def fire_listeners_frame split: option.splits)

lemma groupObjs_addEntity:
  "groupObjs (addEntity w g e) =
     (case map_of (groupObjs w) g of
        None \<Rightarrow> groupObjs w
      | Some obj \<Rightarrow>
          if e \<notin> set (g_entities obj)
          then AList.update g (obj\<lparr>g_entities := Set_add e (g_entities obj)\<rparr>) (groupObjs w)
          else groupObjs w)"
  by (simp add: addEntity_def fire_listeners_frame split: option.splits)

lemma getEntities_removeEntity:
  "getEntities (removeEntity w g e) g' =
     (if g' = g then removeAll e (getEntities w g) else getEntities w g')"
  by (auto simp add: getEntities_def groupObjs_removeEntity Set_delete_def update_conv'
      split: option.splits)

lemma getGroupsForEntity_removeEntity:
  "getGroupsForEntity (removeEntity w g e) e' =
     (if e' = e \<and> hasEntity w g e \<and> removed_listener_connected w g
      then removeAll g (getGroupsForEntity w e)
      else getGroupsForEntity w e')"
proof (cases "map_of (groupObjs w) g")
  case None
  then show ?thesis by (simp add: removeEntity_def hasEntity_def)
next
  case (Some obj)
  show ?thesis
  proof (cases "e \<in> set (g_entities obj)")
    case False
    with Some show ?thesis by (simp add: removeEntity_def hasEntity_def)
  next
    case True
    let ?w' = "w\<lparr>groupObjs := AList.update g (obj\<lparr>g_entities := Set_delete e (g_entities obj)\<rparr>)
                                (groupObjs w)\<rparr>"
    have same: "getGroupsForEntity ?w' x = getGroupsForEntity w x" for x
      by (simp add: getGroupsForEntity_def)
    from fire_listeners_groups [of "\<lambda>w'. onEntityRemoved_listener w' g e" e "removeAll g"
        "onEntityRemoved obj" ?w' e']
    have "getGroupsForEntity
            (fire_listeners (onEntityRemoved obj) (\<lambda>w'. onEntityRemoved_listener w' g e) ?w') e' =
          (if e' = e \<and> listening (onEntityRemoved obj) then removeAll g (getGroupsForEntity w e)
           else getGroupsForEntity w e')"
      by (simp add: getGroupsForEntity_listener same)
    with Some True show ?thesis
      by (simp add: removeEntity_def hasEntity_def removed_listener_connected_def)
  qed
qed

lemma group_keys_removeEntity:
  "fst ` set (groupObjs (removeEntity w g e)) = fst ` set (groupObjs w)"
  by (auto simp add: groupObjs_removeEntity dom_update
      split: option.splits dest: map_of_SomeD intro: rev_image_eqI)

lemma group_table_removeEntity:
  "map_option g_components (map_of (groupObjs (removeEntity w g e)) g') =
   map_option g_components (map_of (groupObjs w) g')"
  by (auto simp add: groupObjs_removeEntity update_conv' split: option.splits)

lemma getEntities_addEntity:
  "getEntities (addEntity w g e) g' =
     (if g' = g \<and> Map_has (groupObjs w) g then Set_add e (getEntities w g) else getEntities w g')"
  by (auto simp add: getEntities_def groupObjs_addEntity Map_has_def Set_add_def update_conv'
      split: option.splits)

lemma getGroupsForEntity_addEntity:
  "getGroupsForEntity (addEntity w g e) e' =
     (if e' = e \<and> Map_has (groupObjs w) g \<and> \<not> hasEntity w g e \<and> added_listener_connected w g
      then Set_add g (getGroupsForEntity w e) else getGroupsForEntity w e')"
proof (cases "map_of (groupObjs w) g")
  case None
  then show ?thesis by (simp add: addEntity_def Map_has_def)
next
  case (Some obj)
  show ?thesis
  proof (cases "e \<in> set (g_entities obj)")
    case True
    with Some show ?thesis by (simp add: addEntity_def hasEntity_def)
  next
    case False
    let ?w' = "w\<lparr>groupObjs := AList.update g (obj\<lparr>g_entities := Set_add e (g_entities obj)\<rparr>)
                                (groupObjs w)\<rparr>"
    have same: "getGroupsForEntity ?w' x = getGroupsForEntity w x" for x
      by (simp add: getGroupsForEntity_def)
    have idem: "Set_add g (Set_add g gs) = Set_add g gs" for gs
      by (simp add: Set_add_def)
    from fire_listeners_groups [of "\<lambda>w'. onEntityAdded_listener w' g e" e "Set_add g"
        "onEntityAdded obj" ?w' e']
    have "getGroupsForEntity
            (fire_listeners (onEntityAdded obj) (\<lambda>w'. onEntityAdded_listener w' g e) ?w') e' =
          (if e' = e \<and> listening (onEntityAdded obj) then Set_add g (getGroupsForEntity w e)
           else getGroupsForEntity w e')"
      by (simp add: getGroupsForEntity_listener same idem)
    with Some False show ?thesis
      by (simp add: addEntity_def hasEntity_def Map_has_def added_listener_connected_def)
  qed
qed

lemma group_keys_addEntity:
  "fst ` set (groupObjs (addEntity w g e)) = fst ` set (groupObjs w)"
  by (auto simp add: groupObjs_addEntity dom_update
      split: option.splits dest: map_of_SomeD intro: rev_image_eqI)

lemma group_table_addEntity:
  "map_option g_components (map_of (groupObjs (addEntity w g e)) g') =
   map_option g_components (map_of (groupObjs w) g')"
  by (auto simp add: groupObjs_addEntity update_conv' split: option.splits)

lemma hasEntity_getEntities: "hasEntity w g e = (e \<in> set (getEntities w g))"
  by (simp add: hasEntity_def getEntities_def split: option.splits)

lemma Map_has_keys: "Map_has m k = (k \<in> fst ` set m)"
  by (simp add: Map_has_def map_of_eq_None_iff)



lemma detach_frame [simp]:
  "entities (fold (\<lambda>grp w'. removeEntity w' grp e) gs w) = entities w"
  "components (fold (\<lambda>grp w'. removeEntity w' grp e) gs w) = components w"
  "nextEntityId (fold (\<lambda>grp w'. removeEntity w' grp e) gs w) = nextEntityId w"
  "nextGroupId (fold (\<lambda>grp w'. removeEntity w' grp e) gs w) = nextGroupId w"
  "groups (fold (\<lambda>grp w'. removeEntity w' grp e) gs w) = groups w"
  "archetypeToEntities (fold (\<lambda>grp w'. removeEntity w' grp e) gs w) = archetypeToEntities w"
  "entityToArchetype (fold (\<lambda>grp w'. removeEntity w' grp e) gs w) = entityToArchetype w"
  by (induction gs arbitrary: w; simp)+

lemma getEntities_detach:
  "getEntities (fold (\<lambda>grp w'. removeEntity w' grp e) gs w) g =
     (if g \<in> set gs then removeAll e (getEntities w g) else getEntities w g)"
  by (induction gs arbitrary: w) (auto simp: getEntities_removeEntity)

lemma getGroupsForEntity_detach_other:
  "e' \<noteq> e \<Longrightarrow> getGroupsForEntity (fold (\<lambda>grp w'. removeEntity w' grp e) gs w) e' = getGroupsForEntity w e'"
  by (induction gs arbitrary: w) (auto simp: getGroupsForEntity_removeEntity)

lemma group_keys_detach:
  "fst ` set (groupObjs (fold (\<lambda>grp w'. removeEntity w' grp e) gs w)) = fst ` set (groupObjs w)"
  by (induction gs arbitrary: w) (simp_all add: group_keys_removeEntity)

lemma group_table_detach:
  "map_option g_components (map_of (groupObjs (fold (\<lambda>grp w'. removeEntity w' grp e) gs w)) g') =
   map_option g_components (map_of (groupObjs w) g')"
  by (induction gs arbitrary: w) (simp_all add: group_table_removeEntity)

lemma despawn_False: "\<not> valid w e \<Longrightarrow> despawn w e = (False, w)"
  by (simp add: despawn_def)

lemma despawn_frame [simp]:
  "nextEntityId (snd (despawn w e)) = nextEntityId w"
  "nextGroupId (snd (despawn w e)) = nextGroupId w"
  "groups (snd (despawn w e)) = groups w"
  "archetypeToEntities (snd (despawn w e)) = archetypeToEntities w"
  "entityToArchetype (snd (despawn w e)) = entityToArchetype w"
  by (simp_all add: despawn_def Let_def split: option.splits)

lemma getGroupsForEntity_despawn:
  "getGroupsForEntity (snd (despawn w e)) e' =
     (if valid w e \<and> e' = e then [] else getGroupsForEntity w e')"
proof (cases "valid w e")
  case False
  then show ?thesis by (simp add: despawn_False)
next
  case True
  show ?thesis
  proof (cases "map_of (entityToGroups w) e")
    case None
    with True show ?thesis
      by (auto simp add: despawn_def Let_def getGroupsForEntity_def split: option.splits)
  next
    case (Some gs)
    let ?F = "fold (\<lambda>grp w'. removeEntity w' grp e) gs w"
    have "getGroupsForEntity (?F\<lparr>entityToGroups := AList.delete e (entityToGroups ?F)\<rparr>) e' =
            (if e' = e then [] else getGroupsForEntity w e')"
      using getGroupsForEntity_detach_other [of e' e gs w]
      by (auto simp add: getGroupsForEntity_def delete_conv')
    with True Some show ?thesis
      by (auto simp add: despawn_def Let_def getGroupsForEntity_def split: option.splits)
  qed
qed

lemma getEntities_despawn:
  "getEntities (snd (despawn w e)) g =
     (if valid w e \<and> g \<in> set (getGroupsForEntity w e) then removeAll e (getEntities w g)
      else getEntities w g)"
proof (cases "valid w e")
  case False
  then show ?thesis by (simp add: despawn_False)
next
  case True
  show ?thesis
  proof (cases "map_of (entityToGroups w) e")
    case None
    with True show ?thesis
      by (auto simp add: despawn_def Let_def getGroupsForEntity_def getEntities_def split: option.splits)
  next
    case (Some gs)
    let ?F = "fold (\<lambda>grp w'. removeEntity w' grp e) gs w"
    have "getEntities (?F\<lparr>entityToGroups := AList.delete e (entityToGroups ?F)\<rparr>) g = getEntities ?F g"
      by (simp add: getEntities_def)
    with True Some getEntities_detach [of e gs w g] show ?thesis
      by (auto simp add: despawn_def Let_def getGroupsForEntity_def getEntities_def split: option.splits)
  qed
qed

lemma group_keys_despawn:
  "fst ` set (groupObjs (snd (despawn w e))) = fst ` set (groupObjs w)"
  by (simp add: despawn_def Let_def group_keys_detach split: option.splits)

lemma group_table_despawn:
  "map_option g_components (map_of (groupObjs (snd (despawn w e))) g') =
   map_option g_components (map_of (groupObjs w) g')"
  by (simp add: despawn_def Let_def group_table_detach split: option.splits)

lemma spawn_frame [simp]:
  "groupObjs (snd (spawn w)) = groupObjs w"
  "entityToGroups (snd (spawn w)) = entityToGroups w"
  "groups (snd (spawn w)) = groups w"
  "nextGroupId (snd (spawn w)) = nextGroupId w"
  by (simp_all add: spawn_def Let_def)

lemma world_set_frame [simp]:
  "groupObjs (case world_set w e c v of Inl err \<Rightarrow> w | Inr w' \<Rightarrow> w') = groupObjs w"
  "entityToGroups (case world_set w e c v of Inl err \<Rightarrow> w | Inr w' \<Rightarrow> w') = entityToGroups w"
  "groups (case world_set w e c v of Inl err \<Rightarrow> w | Inr w' \<Rightarrow> w') = groups w"
  "entities (case world_set w e c v of Inl err \<Rightarrow> w | Inr w' \<Rightarrow> w') = entities w"
  "nextEntityId (case world_set w e c v of Inl err \<Rightarrow> w | Inr w' \<Rightarrow> w') = nextEntityId w"
  "nextGroupId (case world_set w e c v of Inl err \<Rightarrow> w | Inr w' \<Rightarrow> w') = nextGroupId w"
  by (simp_all add: world_set_def split: option.splits)

lemma remove_frame [simp]:
  "groupObjs (snd (remove w e c)) = groupObjs w"
  "entityToGroups (snd (remove w e c)) = entityToGroups w"
  "groups (snd (remove w e c)) = groups w"
  "entities (snd (remove w e c)) = entities w"
  "nextEntityId (snd (remove w e c)) = nextEntityId w"
  "nextGroupId (snd (remove w e c)) = nextGroupId w"
  by (simp_all add: remove_def Let_def split: option.splits)

lemma mutate_group_frame:
  "groups (mutate w m) = groups w"
  "nextGroupId (mutate w m) = nextGroupId w"
  "fst ` set (groupObjs (mutate w m)) = fst ` set (groupObjs w)"
  "map_option g_components (map_of (groupObjs (mutate w m)) g) =
     map_option g_components (map_of (groupObjs w) g)"
  by (cases m; simp add: group_keys_despawn group_table_despawn)+

lemma getGroupsForEntity_mutate:
  "getGroupsForEntity w e = [] \<Longrightarrow> getGroupsForEntity (mutate w m) e = []"
proof (cases m)
  case (Despawn x)
  assume "getGroupsForEntity w e = []"
  with Despawn show ?thesis by (simp add: getGroupsForEntity_despawn)
qed (simp_all add: getGroupsForEntity_def)

lemma getGroupsForEntity_mutate_all:
  "getGroupsForEntity w e = [] \<Longrightarrow> getGroupsForEntity (mutate_all w ms) e = []"
  unfolding mutate_all_def
  by (induction ms arbitrary: w) (simp_all add: getGroupsForEntity_mutate)

subsection \<open>revert and groups\<close>

lemma restore_entity_frame [simp]:
  "groupObjs (step_result (restore_entity s entry w)) = groupObjs w"
  "entityToGroups (step_result (restore_entity s entry w)) = entityToGroups w"
  "groups (step_result (restore_entity s entry w)) = groups w"
  "nextEntityId (step_result (restore_entity s entry w)) = nextEntityId w"
  "nextGroupId (step_result (restore_entity s entry w)) = nextGroupId w"
  "archetypeToEntities (step_result (restore_entity s entry w)) = archetypeToEntities w"
  "entityToArchetype (step_result (restore_entity s entry w)) = entityToArchetype w"
  by (simp_all add: restore_entity_def step_result_def Let_def split: option.splits)

lemma restore_entities_frame_all:
  "groupObjs (restore_entities s es w) = groupObjs w \<and>
   entityToGroups (restore_entities s es w) = entityToGroups w \<and>
   groups (restore_entities s es w) = groups w \<and>
   nextEntityId (restore_entities s es w) = nextEntityId w \<and>
   nextGroupId (restore_entities s es w) = nextGroupId w \<and>
   archetypeToEntities (restore_entities s es w) = archetypeToEntities w \<and>
   entityToArchetype (restore_entities s es w) = entityToArchetype w"
proof (induction es arbitrary: w)
  case Nil
  then show ?case by simp
next
  case (Cons entry es)
  show ?case
  proof (cases "restore_entity s entry w")
    case (Continue w')
    with restore_entity_frame [of s entry w] Cons.IH [of w'] show ?thesis
      by (simp add: step_result_def)
  next
    case (Return w')
    with restore_entity_frame [of s entry w] show ?thesis
      by (simp add: step_result_def)
  qed
qed

lemma restore_entities_group_frame [simp]:
  "groupObjs (restore_entities s es w) = groupObjs w"
  "entityToGroups (restore_entities s es w) = entityToGroups w"
  "groups (restore_entities s es w) = groups w"
  "nextEntityId (restore_entities s es w) = nextEntityId w"
  "nextGroupId (restore_entities s es w) = nextGroupId w"
  "archetypeToEntities (restore_entities s es w) = archetypeToEntities w"
  "entityToArchetype (restore_entities s es w) = entityToArchetype w"
  using restore_entities_frame_all [of s es w] by blast+

lemma despawn_some_frame:
  "nextEntityId (fold (\<lambda>entity w'. if P entity then snd (despawn w' entity) else w') es w) = nextEntityId w"
  "nextGroupId (fold (\<lambda>entity w'. if P entity then snd (despawn w' entity) else w') es w) = nextGroupId w"
  "groups (fold (\<lambda>entity w'. if P entity then snd (despawn w' entity) else w') es w) = groups w"
  "fst ` set (groupObjs (fold (\<lambda>entity w'. if P entity then snd (despawn w' entity) else w') es w)) =
     fst ` set (groupObjs w)"
  "map_option g_components (map_of (groupObjs (fold (\<lambda>entity w'. if P entity then snd (despawn w' entity) else w') es w)) g) =
     map_option g_components (map_of (groupObjs w) g)"
  by (induction es arbitrary: w; simp add: group_keys_despawn group_table_despawn)+

lemma despawn_some_groups_of:
  "getGroupsForEntity (fold (\<lambda>entity w'. if P entity then snd (despawn w' entity) else w') es w) e =
     [] \<or>
   getGroupsForEntity (fold (\<lambda>entity w'. if P entity then snd (despawn w' entity) else w') es w) e =
     getGroupsForEntity w e"
proof (induction es arbitrary: w)
  case Nil
  then show ?case by simp
next
  case (Cons a es)
  show ?case
  proof (cases "P a")
    case True
    have "getGroupsForEntity (snd (despawn w a)) e = [] \<or>
          getGroupsForEntity (snd (despawn w a)) e = getGroupsForEntity w e"
      by (simp add: getGroupsForEntity_despawn)
    with Cons.IH [of "snd (despawn w a)"] True show ?thesis by auto
  next
    case False
    with Cons.IH [of w] show ?thesis by simp
  qed
qed

lemma despawn_some_groups_of_kept:
  "\<not> P e \<Longrightarrow>
   getGroupsForEntity (fold (\<lambda>entity w'. if P entity then snd (despawn w' entity) else w') es w) e =
     getGroupsForEntity w e"
  by (induction es arbitrary: w) (auto simp add: getGroupsForEntity_despawn)

lemma valid_despawn_other: "a \<noteq> e \<Longrightarrow> valid (snd (despawn w a)) e = valid w e"
  by (auto simp add: valid_def despawn_def Let_def Set_delete_def split: option.splits)

lemma despawn_some_groups_exact:
  "getGroupsForEntity (fold (\<lambda>entity w'. if P entity then snd (despawn w' entity) else w') es w) e =
     (if P e \<and> e \<in> set es \<and> valid w e then [] else getGroupsForEntity w e)"
proof (induction es arbitrary: w)
  case Nil
  then show ?case by simp
next
  case (Cons a es)
  let ?w1 = "if P a then snd (despawn w a) else w"
  have step: "getGroupsForEntity (fold (\<lambda>entity w'. if P entity then snd (despawn w' entity) else w') (a # es) w) e =
        (if P e \<and> e \<in> set es \<and> valid ?w1 e then [] else getGroupsForEntity ?w1 e)"
    using Cons.IH [of ?w1] by simp
  show ?case
  proof (cases "P a")
    case False
    with step show ?thesis by auto
  next
    case True
    show ?thesis
    proof (cases "a = e")
      case False
      with True step show ?thesis
        by (simp add: valid_despawn_other getGroupsForEntity_despawn)
    next
      case same: True
      show ?thesis
      proof (cases "valid w e")
        case True
        with same \<open>P a\<close> step show ?thesis by (simp add: getGroupsForEntity_despawn)
      next
        case False
        with same \<open>P a\<close> step show ?thesis by (simp add: despawn_False)
      qed
    qed
  qed
qed

lemma group_get_cong:
  "map_option g_components (map_of (groupObjs w') g) = map_option g_components (map_of (groupObjs w) g)
   \<Longrightarrow> group_get w' g c = group_get w g c"
  by (auto simp add: group_get_def split: option.splits)

lemma group_has_cong:
  "map_option g_components (map_of (groupObjs w') g) = map_option g_components (map_of (groupObjs w) g)
   \<Longrightarrow> group_has w' g c = group_has w g c"
  by (auto simp add: group_has_def split: option.splits)


text \<open>
  C9 as stated (an entity that was despawned and then re-created by \<open>revert\<close> belongs
  to no group afterwards) fails. Group membership is not tied to liveness: after
  \<open>despawn(1)\<close> a call \<open>g.addEntity(1)\<close> enters the group in the index again, \<open>revert\<close>
  re-creates entity 1 and leaves the index as it is, so the re-created entity belongs
  to the group.
\<close>

theorem revert_keeps_membership_added_after_despawn:
  "snapshot team_world 1 0 None = Inr (Some team_snapshot) \<and>
   fst (despawn team_world 1) \<and>
   getGroupsForEntity (snd (despawn team_world 1)) 1 = [] \<and>
   \<not> valid (addEntity (snd (despawn team_world 1)) 1 1) 1 \<and>
   valid (revert team_snapshot (addEntity (snd (despawn team_world 1)) 1 1)) 1 \<and>
   getGroupsForEntity (revert team_snapshot (addEntity (snd (despawn team_world 1)) 1 1)) 1 = [1]"
  by code_simp

text \<open>
  C9, amended: \<open>revert\<close> does not touch group state itself. The group objects and the
  entity-to-groups index after \<open>revert\<close> are those left by the despawn step (which runs
  only for a full snapshot); the set of groups and every group's component table are
  unchanged. After \<open>revert\<close> the groups of an entity are: none, if the snapshot is full
  and the entity was live and is not listed in it (it is despawned); and the groups it
  had just before the revert for every other entity, so for every entity under a
  partial snapshot, for every listed entity, and for every entity that was not live,
  among them the entities that \<open>revert\<close> re-creates. Hence an entity that was
  despawned belongs to no group after a revert, whether or not the revert re-creates
  it, when only spawn/despawn/set/remove calls were made since the despawn; a
  membership recorded for it after the despawn stays.
\<close>

theorem revert_leaves_groups_alone:
  "groupObjs (revert S w) = groupObjs (if isPartial S then w else despawn_unlisted S w) \<and>
   entityToGroups (revert S w) = entityToGroups (if isPartial S then w else despawn_unlisted S w) \<and>
   groups (revert S w) = groups w \<and>
   (\<forall>g c. group_get (revert S w) g c = group_get w g c) \<and>
   (\<forall>e'. isPartial S \<or> Map_has (entityStates S) e' \<longrightarrow>
      getGroupsForEntity (revert S w) e' = getGroupsForEntity w e') \<and>
   (fst (despawn w e) \<longrightarrow>
      getGroupsForEntity (revert S (mutate_all (snd (despawn w e)) ms)) e = []) \<and>
   (\<forall>x. getGroupsForEntity (revert S w) x =
      (if \<not> isPartial S \<and> valid w x \<and> \<not> Map_has (entityStates S) x then []
       else getGroupsForEntity w x))"
proof -
  have a: "groupObjs (revert S w) = groupObjs (if isPartial S then w else despawn_unlisted S w)"
    "entityToGroups (revert S w) = entityToGroups (if isPartial S then w else despawn_unlisted S w)"
    by (simp_all add: revert_def Let_def)
  have b: "groups (revert S w) = groups w"
    by (simp add: revert_def Let_def despawn_unlisted_def despawn_some_frame)
  have c: "group_get (revert S w) g c = group_get w g c" for g c
    by (rule group_get_cong) (simp add: a despawn_unlisted_def despawn_some_frame)
  have d: "getGroupsForEntity (revert S w) e' = getGroupsForEntity w e'"
    if "isPartial S \<or> Map_has (entityStates S) e'" for e'
  proof -
    have "getGroupsForEntity (revert S w) e' =
            getGroupsForEntity (if isPartial S then w else despawn_unlisted S w) e'"
      by (simp add: getGroupsForEntity_def a)
    also have "\<dots> = getGroupsForEntity w e'"
      using that despawn_some_groups_of_kept [of "\<lambda>x. \<not> Map_has (entityStates S) x" e' "entities w" w]
      by (auto simp add: despawn_unlisted_def)
    finally show ?thesis .
  qed
  have e: "getGroupsForEntity (revert S (mutate_all (snd (despawn w e)) ms)) e = []"
    if "fst (despawn w e)"
  proof -
    from that have "valid w e" by (auto simp add: despawn_def split: if_splits)
    then have "getGroupsForEntity (snd (despawn w e)) e = []"
      by (simp add: getGroupsForEntity_despawn)
    then have z: "getGroupsForEntity (mutate_all (snd (despawn w e)) ms) e = []"
      by (rule getGroupsForEntity_mutate_all)
    let ?w = "mutate_all (snd (despawn w e)) ms"
    have "getGroupsForEntity (revert S ?w) e =
            getGroupsForEntity (if isPartial S then ?w else despawn_unlisted S ?w) e"
      by (simp add: getGroupsForEntity_def revert_def Let_def)
    also have "\<dots> = []"
      using z despawn_some_groups_of [of "\<lambda>x. \<not> Map_has (entityStates S) x" "entities ?w" ?w e]
      by (auto simp add: despawn_unlisted_def)
    finally show ?thesis .
  qed
  have f: "getGroupsForEntity (revert S w) x =
      (if \<not> isPartial S \<and> valid w x \<and> \<not> Map_has (entityStates S) x then []
       else getGroupsForEntity w x)" for x
  proof -
    have "getGroupsForEntity (revert S w) x =
            getGroupsForEntity (if isPartial S then w else despawn_unlisted S w) x"
      by (simp add: getGroupsForEntity_def a)
    also have "\<dots> = (if \<not> isPartial S \<and> valid w x \<and> \<not> Map_has (entityStates S) x then []
       else getGroupsForEntity w x)"
      using despawn_some_groups_exact [of "\<lambda>x. \<not> Map_has (entityStates S) x" "entities w" w x]
      by (simp add: despawn_unlisted_def valid_def)
    finally show ?thesis .
  qed
  from a b c d e f show ?thesis by blast
qed

theorem revert_leaves_groups_alone_witness:
  "snapshot team_world 1 0 None = Inr (Some team_snapshot) \<and>
   getGroupsForEntity team_world 1 = [1] \<and>
   fst (despawn team_world 1) \<and>
   valid (revert team_snapshot (snd (despawn team_world 1))) 1 \<and>
   getGroupsForEntity (revert team_snapshot (mutate_all (snd (despawn team_world 1)) [])) 1 = [] \<and>
   getGroupsForEntity (revert team_snapshot (mutate team_world (SetComponent 1 3 ''x''))) 1 = [1] \<and>
   group_get (revert team_snapshot (snd (despawn team_world 1))) 1 7 = Some ''red'' \<and>
   getGroupsForEntity (revert team_snapshot (addEntity (snd (despawn team_world 1)) 1 1)) 1 =
     getGroupsForEntity (addEntity (snd (despawn team_world 1)) 1 1) 1"
proof -
  have snap: "snapshot team_world 1 0 None = Inr (Some team_snapshot)"
    by code_simp
  have before: "getGroupsForEntity team_world 1 = [1]"
    by code_simp
  have gone: "fst (despawn team_world 1)"
    by code_simp
  have again: "valid (revert team_snapshot (snd (despawn team_world 1))) 1"
    by code_simp
  have listed: "Map_has (entityStates team_snapshot) 1"
    by code_simp
  have same: "getGroupsForEntity (mutate team_world (SetComponent 1 3 ''x'')) 1 = [1]"
    by code_simp
  have red: "group_get (snd (despawn team_world 1)) 1 7 = Some ''red''"
    by code_simp
  from revert_leaves_groups_alone [of team_snapshot team_world 1 "[]"] gone
  have a: "getGroupsForEntity (revert team_snapshot (mutate_all (snd (despawn team_world 1)) [])) 1 = []"
    by blast
  from revert_leaves_groups_alone [of team_snapshot "mutate team_world (SetComponent 1 3 ''x'')"]
    listed same
  have b: "getGroupsForEntity (revert team_snapshot (mutate team_world (SetComponent 1 3 ''x''))) 1 = [1]"
    by simp
  from revert_leaves_groups_alone [of team_snapshot "snd (despawn team_world 1)"] red
  have c: "group_get (revert team_snapshot (snd (despawn team_world 1))) 1 7 = Some ''red''"
    by simp
  from revert_leaves_groups_alone [of team_snapshot "addEntity (snd (despawn team_world 1)) 1 1"]
    listed
  have d: "getGroupsForEntity (revert team_snapshot (addEntity (snd (despawn team_world 1)) 1 1)) 1 =
           getGroupsForEntity (addEntity (snd (despawn team_world 1)) 1 1) 1"
    by simp
  from snap before gone again a b c d show ?thesis by blast
qed

subsection \<open>Adding an entity to a group\<close>

lemma world_listener_first_listening: "world_listener_first ev \<Longrightarrow> listening ev"
  by (auto simp add: world_listener_first_def listening_def dest!: map_of_SomeD intro: rev_image_eqI)

lemma world_listener_first_new: "world_listener_first (snd (connect new_Event WorldListener))"
  by (simp add: world_listener_first_def connect_def new_Event_def Let_def)

lemma world_listener_first_connect:
  "world_listener_first ev \<Longrightarrow> world_listener_first (snd (connect ev cb))"
  by (simp add: world_listener_first_def connect_def Let_def update_conv')

lemma listeners_first_connected:
  "listeners_first w \<Longrightarrow> Map_has (groupObjs w) g \<Longrightarrow> added_listener_connected w g"
proof -
  assume lf: "listeners_first w" and "Map_has (groupObjs w) g"
  then obtain obj where obj: "map_of (groupObjs w) g = Some obj" by (auto simp add: Map_has_def)
  then have "added_event w g = Some (onEntityAdded obj)" by (simp add: added_event_def)
  with lf have "world_listener_first (onEntityAdded obj)" by (simp add: listeners_first_def)
  with obj show ?thesis
    by (simp add: added_listener_connected_def world_listener_first_listening)
qed

lemma listeners_first_cong:
  "(\<And>g. added_event w' g = added_event w g) \<Longrightarrow> listeners_first w' = listeners_first w"
  by (simp add: listeners_first_def)

lemma added_event_removeEntity [simp]: "added_event (removeEntity w g e) g' = added_event w g'"
  by (auto simp add: added_event_def groupObjs_removeEntity update_conv' split: option.splits)

lemma added_event_addEntity [simp]: "added_event (addEntity w g e) g' = added_event w g'"
  by (auto simp add: added_event_def groupObjs_addEntity update_conv' split: option.splits)

lemma added_event_detach [simp]:
  "added_event (fold (\<lambda>grp w'. removeEntity w' grp e) gs w) g' = added_event w g'"
  by (induction gs arbitrary: w) simp_all

lemma added_event_remove_members [simp]:
  "added_event (fold (\<lambda>entity w'. removeEntity w' g entity) es w) g' = added_event w g'"
  by (induction es arbitrary: w) simp_all

lemma added_event_groupObjs: "groupObjs w' = groupObjs w \<Longrightarrow> added_event w' g = added_event w g"
  by (simp add: added_event_def)

lemma group_event_detach:
  "map_option onEntityAdded (map_of (groupObjs (fold (\<lambda>grp w'. removeEntity w' grp e) gs w)) g') =
   map_option onEntityAdded (map_of (groupObjs w) g')"
  using added_event_detach [of e gs w g'] by (simp add: added_event_def)

lemma added_event_despawn [simp]: "added_event (snd (despawn w e)) g' = added_event w g'"
  unfolding added_event_def
  by (simp add: despawn_def Let_def group_event_detach split: option.splits)

lemma added_event_despawn_some [simp]:
  "added_event (fold (\<lambda>entity w'. if P entity then snd (despawn w' entity) else w') es w) g =
     added_event w g"
  by (induction es arbitrary: w) simp_all

lemma added_event_mutate [simp]: "added_event (mutate w m) g = added_event w g"
proof (cases m)
  case (Despawn e)
  then show ?thesis by simp
qed (simp_all add: added_event_def)

lemma added_event_revert [simp]: "added_event (revert S w) g = added_event w g"
proof -
  have "added_event (revert S w) g = added_event (if isPartial S then w else despawn_unlisted S w) g"
    by (rule added_event_groupObjs) (simp add: revert_def Let_def)
  then show ?thesis by (simp add: despawn_unlisted_def)
qed

lemma group_event_remove_members:
  "map_option onEntityAdded (map_of (groupObjs (fold (\<lambda>entity w'. removeEntity w' g entity) es w)) g') =
   map_option onEntityAdded (map_of (groupObjs w) g')"
  using added_event_remove_members [of g es w g'] by (simp add: added_event_def)

lemma added_event_removeGroup [simp]: "added_event (removeGroup w g) g' = added_event w g'"
  unfolding added_event_def
  by (simp add: removeGroup_def Let_def group_event_remove_members)

lemma added_event_group_set [simp]: "added_event (group_set w g c v) g' = added_event w g'"
  by (auto simp add: added_event_def group_set_def update_conv' split: option.splits)

lemma added_event_group_remove [simp]: "added_event (snd (group_remove w g c)) g' = added_event w g'"
  by (auto simp add: added_event_def group_remove_def update_conv' Let_def split: option.splits)

lemma added_event_createGroup:
  "added_event (snd (createGroup w)) g =
     (if g = nextGroupId w then Some (snd (connect new_Event WorldListener)) else added_event w g)"
  by (simp add: added_event_def createGroup_def Let_def update_conv')

lemma added_event_observe_added:
  "added_event (observe_onEntityAdded w g n) g' =
     (if g' = g then map_option (\<lambda>ev. snd (connect ev (Observer n))) (added_event w g)
      else added_event w g')"
  by (auto simp add: added_event_def observe_onEntityAdded_def update_conv' split: option.splits)

lemma added_event_other_calls [simp]:
  "added_event (observe_onEntityRemoved w g n) g' = added_event w g'"
  "added_event (clear_onEntityRemoved w g) g' = added_event w g'"
  "added_event (fire_onEntityAdded w g e) g' = added_event w g'"
  by (auto simp add: added_event_def observe_onEntityRemoved_def clear_onEntityRemoved_def
      fire_onEntityAdded_def fire_listeners_frame update_conv' split: option.splits)

lemma listeners_first_perform:
  "listeners_first (world s) \<Longrightarrow> keeps_index op \<Longrightarrow> listeners_first (world (perform s op))"
  by (cases op)
     (auto simp add: listeners_first_def keeps_index_def added_event_createGroup
        added_event_observe_added world_listener_first_new world_listener_first_connect
      split: sum.splits option.splits if_splits)


lemma members_indexed_removeEntity:
  "members_indexed w \<Longrightarrow> members_indexed (removeEntity w g e)"
  unfolding members_indexed_def
  by (auto simp add: group_keys_removeEntity getEntities_removeEntity getGroupsForEntity_removeEntity
      hasEntity_getEntities)

lemma members_indexed_addEntity:
  "members_indexed w \<Longrightarrow> listeners_first w \<Longrightarrow> members_indexed (addEntity w g e)"
  unfolding members_indexed_def
  by (auto simp add: group_keys_addEntity getEntities_addEntity getGroupsForEntity_addEntity
      hasEntity_getEntities Set_add_def listeners_first_connected)

lemma members_indexed_despawn:
  "members_indexed w \<Longrightarrow> members_indexed (snd (despawn w e))"
  unfolding members_indexed_def
  by (auto simp add: group_keys_despawn getEntities_despawn getGroupsForEntity_despawn)

lemma members_indexed_cong:
  "groupObjs w' = groupObjs w \<Longrightarrow> entityToGroups w' = entityToGroups w \<Longrightarrow>
   members_indexed w' = members_indexed w"
  by (simp add: members_indexed_def getEntities_def getGroupsForEntity_def)

lemma members_indexed_mutate:
  "members_indexed w \<Longrightarrow> members_indexed (mutate w m)"
proof (cases m)
  case Spawn
  assume "members_indexed w"
  with Spawn show ?thesis by (simp add: members_indexed_cong [of "snd (spawn w)" w])
next
  case (Despawn e)
  assume "members_indexed w"
  with Despawn show ?thesis by (simp add: members_indexed_despawn)
next
  case (SetComponent e c v)
  assume "members_indexed w"
  with SetComponent show ?thesis
    by (simp add: members_indexed_cong [of "case world_set w e c v of Inl err \<Rightarrow> w | Inr w' \<Rightarrow> w'" w])
next
  case (RemoveComponent e c)
  assume "members_indexed w"
  with RemoveComponent show ?thesis
    by (simp add: members_indexed_cong [of "snd (remove w e c)" w])
qed

lemma despawn_some_members_indexed:
  "members_indexed w \<Longrightarrow>
   members_indexed (fold (\<lambda>entity w'. if P entity then snd (despawn w' entity) else w') es w)"
  by (induction es arbitrary: w) (simp_all add: members_indexed_despawn)

lemma members_indexed_revert: "members_indexed w \<Longrightarrow> members_indexed (revert S w)"
proof -
  assume mi: "members_indexed w"
  have "members_indexed (if isPartial S then w else despawn_unlisted S w)"
    using mi by (simp add: despawn_unlisted_def despawn_some_members_indexed)
  moreover have "members_indexed (revert S w) =
                 members_indexed (if isPartial S then w else despawn_unlisted S w)"
    by (rule members_indexed_cong) (simp_all add: revert_def Let_def)
  ultimately show ?thesis by simp
qed

lemma members_indexed_createGroup: "members_indexed w \<Longrightarrow> members_indexed (snd (createGroup w))"
  unfolding members_indexed_def
  by (auto simp add: createGroup_def Let_def getEntities_def getGroupsForEntity_def update_conv'
      dom_update split: option.splits if_splits)

lemma members_indexed_remove_members:
  "members_indexed w \<Longrightarrow> members_indexed (fold (\<lambda>entity w'. removeEntity w' g entity) es w)"
  by (induction es arbitrary: w) (simp_all add: members_indexed_removeEntity)

lemma members_indexed_removeGroup: "members_indexed w \<Longrightarrow> members_indexed (removeGroup w g)"
proof -
  assume mi: "members_indexed w"
  let ?F = "fold (\<lambda>entity w'. removeEntity w' g entity) (getEntities w g) w"
  have "members_indexed (?F\<lparr>groups := Set_delete g (groups ?F)\<rparr>) = members_indexed ?F"
    by (rule members_indexed_cong) simp_all
  with mi show ?thesis
    by (simp add: removeGroup_def Let_def members_indexed_remove_members)
qed

lemma group_set_members [simp]:
  "getEntities (group_set w g c v) g' = getEntities w g'"
  "getGroupsForEntity (group_set w g c v) e = getGroupsForEntity w e"
  "fst ` set (groupObjs (group_set w g c v)) = fst ` set (groupObjs w)"
  by (auto simp add: group_set_def getEntities_def getGroupsForEntity_def update_conv' dom_update
      split: option.splits dest: map_of_SomeD intro: rev_image_eqI)

lemma group_remove_members [simp]:
  "getEntities (snd (group_remove w g c)) g' = getEntities w g'"
  "getGroupsForEntity (snd (group_remove w g c)) e = getGroupsForEntity w e"
  "fst ` set (groupObjs (snd (group_remove w g c))) = fst ` set (groupObjs w)"
  by (auto simp add: group_remove_def getEntities_def getGroupsForEntity_def update_conv' dom_update
      split: option.splits dest: map_of_SomeD intro: rev_image_eqI)

lemma event_calls_members [simp]:
  "getEntities (observe_onEntityAdded w g n) g' = getEntities w g'"
  "getGroupsForEntity (observe_onEntityAdded w g n) e = getGroupsForEntity w e"
  "fst ` set (groupObjs (observe_onEntityAdded w g n)) = fst ` set (groupObjs w)"
  "getEntities (observe_onEntityRemoved w g n) g' = getEntities w g'"
  "getGroupsForEntity (observe_onEntityRemoved w g n) e = getGroupsForEntity w e"
  "fst ` set (groupObjs (observe_onEntityRemoved w g n)) = fst ` set (groupObjs w)"
  "getEntities (clear_onEntityRemoved w g) g' = getEntities w g'"
  "getGroupsForEntity (clear_onEntityRemoved w g) e = getGroupsForEntity w e"
  "fst ` set (groupObjs (clear_onEntityRemoved w g)) = fst ` set (groupObjs w)"
  by (auto simp add: observe_onEntityAdded_def observe_onEntityRemoved_def clear_onEntityRemoved_def
      getEntities_def getGroupsForEntity_def update_conv' dom_update
      split: option.splits dest: map_of_SomeD intro: rev_image_eqI)

lemma fire_onEntityAdded_members:
  "getEntities (fire_onEntityAdded w g e) g' = getEntities w g'"
  "fst ` set (groupObjs (fire_onEntityAdded w g e)) = fst ` set (groupObjs w)"
  "getGroupsForEntity (fire_onEntityAdded w g e) e' =
     (if e' = e \<and> added_listener_connected w g then Set_add g (getGroupsForEntity w e)
      else getGroupsForEntity w e')"
proof -
  show "getEntities (fire_onEntityAdded w g e) g' = getEntities w g'"
    by (simp add: getEntities_def fire_onEntityAdded_def fire_listeners_frame split: option.splits)
  show "fst ` set (groupObjs (fire_onEntityAdded w g e)) = fst ` set (groupObjs w)"
    by (simp add: fire_onEntityAdded_def fire_listeners_frame split: option.splits)
  have idem: "Set_add g (Set_add g gs) = Set_add g gs" for gs
    by (simp add: Set_add_def)
  show "getGroupsForEntity (fire_onEntityAdded w g e) e' =
     (if e' = e \<and> added_listener_connected w g then Set_add g (getGroupsForEntity w e)
      else getGroupsForEntity w e')"
  proof (cases "map_of (groupObjs w) g")
    case None
    then show ?thesis by (simp add: fire_onEntityAdded_def added_listener_connected_def)
  next
    case (Some obj)
    from fire_listeners_groups [of "\<lambda>w'. onEntityAdded_listener w' g e" e "Set_add g"
        "onEntityAdded obj" w e']
    have "getGroupsForEntity
            (fire_listeners (onEntityAdded obj) (\<lambda>w'. onEntityAdded_listener w' g e) w) e' =
          (if e' = e \<and> listening (onEntityAdded obj) then Set_add g (getGroupsForEntity w e)
           else getGroupsForEntity w e')"
      by (simp add: getGroupsForEntity_listener idem)
    with Some show ?thesis by (simp add: fire_onEntityAdded_def added_listener_connected_def)
  qed
qed

lemma members_indexed_fire_onEntityAdded:
  "members_indexed w \<Longrightarrow> members_indexed (fire_onEntityAdded w g e)"
  unfolding members_indexed_def
  by (auto simp add: fire_onEntityAdded_members Set_add_def)

lemma members_indexed_event_calls:
  "members_indexed w \<Longrightarrow> members_indexed (observe_onEntityAdded w g n)"
  "members_indexed w \<Longrightarrow> members_indexed (observe_onEntityRemoved w g n)"
  "members_indexed w \<Longrightarrow> members_indexed (clear_onEntityRemoved w g)"
  unfolding members_indexed_def by simp_all

lemma members_indexed_group_set: "members_indexed w \<Longrightarrow> members_indexed (group_set w g c v)"
  unfolding members_indexed_def by simp

lemma members_indexed_group_remove:
  "members_indexed w \<Longrightarrow> members_indexed (snd (group_remove w g c))"
  unfolding members_indexed_def by simp

lemma members_indexed_perform:
  "members_indexed (world s) \<Longrightarrow> listeners_first (world s) \<Longrightarrow> keeps_index op \<Longrightarrow>
     members_indexed (world (perform s op))"
  by (cases op)
     (auto simp add: members_indexed_mutate members_indexed_revert members_indexed_createGroup
        members_indexed_removeGroup members_indexed_addEntity members_indexed_removeEntity
        members_indexed_group_set members_indexed_group_remove members_indexed_event_calls
        members_indexed_fire_onEntityAdded keeps_index_def
      split: sum.splits option.splits)

lemma index_kept_perform_all:
  "members_indexed (world s) \<and> listeners_first (world s) \<Longrightarrow> list_all keeps_index ops \<Longrightarrow>
     members_indexed (world (perform_all s ops)) \<and> listeners_first (world (perform_all s ops))"
  unfolding perform_all_def
  by (induction ops arbitrary: s) (simp_all add: members_indexed_perform listeners_first_perform)

lemma index_kept_new:
  "members_indexed (world new_session) \<and> listeners_first (world new_session)"
  by (simp add: members_indexed_def listeners_first_def added_event_def new_session_def
      createWorld_def)

text \<open>
  C10 as stated (after \<open>g.addEntity(e)\<close> the world's \<open>getGroupsForEntity(e)\<close>
  includes \<open>g\<close>) fails. The index is kept by a listener on the group's public event
  \<^verbatim>\<open>onEntityAdded\<close>; after \<^verbatim>\<open>g.onEntityAdded.disconnectAll()\<close> the call
  \<open>g.addEntity(5)\<close> makes 5 a member of the group and the index is not updated.
\<close>

theorem addEntity_after_disconnectAll_is_not_indexed:
  "Map_has (groupObjs muted_world) 1 \<and>
   \<not> hasEntity muted_world 1 5 \<and>
   hasEntity (addEntity muted_world 1 5) 1 5 \<and>
   getEntities (addEntity muted_world 1 5) 1 = [5] \<and>
   getGroupsForEntity (addEntity muted_world 1 5) 5 = []"
  by code_simp

text \<open>
  C10, amended: group membership performs no liveness check. For every world, every
  group object \<open>g\<close> made by \<open>createGroup\<close> and every entity id \<open>e\<close>, live or not, after
  \<open>g.addEntity(e)\<close> the group has \<open>e\<close> and \<open>getEntities\<close> lists it;
  \<open>getGroupsForEntity(e)\<close> includes \<open>g\<close> afterwards exactly when it did before or
  \<open>e\<close> was not yet a member and the listener of \<open>createGroup\<close> is still connected to
  \<^verbatim>\<open>g.onEntityAdded\<close>; when \<open>e\<close> is not live, \<open>get\<close> and \<open>has\<close> still answer absent
  and false; and in every world reached from a new one by calls other than
  \<^verbatim>\<open>disconnectAll\<close> on a group's \<^verbatim>\<open>onEntityAdded\<close> event and firing a group's
  \<^verbatim>\<open>onEntityRemoved\<close> event by hand, \<open>getGroupsForEntity(e)\<close> includes \<open>g\<close> after
  \<open>g.addEntity(e)\<close>. (Observers connected to the group's events are taken neither to
  raise nor to call back into the world or the group.)
\<close>

theorem addEntity_ignores_liveness:
  assumes "Map_has (groupObjs w) g"
  shows "hasEntity (addEntity w g e) g e \<and>
         e \<in> set (getEntities (addEntity w g e) g) \<and>
         (g \<in> set (getGroupsForEntity (addEntity w g e) e)) =
           (g \<in> set (getGroupsForEntity w e) \<or>
            \<not> hasEntity w g e \<and> added_listener_connected w g) \<and>
         (\<not> valid w e \<longrightarrow>
            \<not> valid (addEntity w g e) e \<and>
            get (addEntity w g e) e c = None \<and> \<not> has (addEntity w g e) e c) \<and>
         (list_all keeps_index ops \<and> w = world (perform_all new_session ops) \<longrightarrow>
            g \<in> set (getGroupsForEntity (addEntity w g e) e))"
proof -
  from assms have "e \<in> set (getEntities (addEntity w g e) g)"
    by (simp add: getEntities_addEntity Set_add_def)
  moreover from assms have "(g \<in> set (getGroupsForEntity (addEntity w g e) e)) =
           (g \<in> set (getGroupsForEntity w e) \<or>
            \<not> hasEntity w g e \<and> added_listener_connected w g)"
    by (auto simp add: getGroupsForEntity_addEntity Set_add_def)
  moreover have "\<not> valid w e \<longrightarrow>
            \<not> valid (addEntity w g e) e \<and>
            get (addEntity w g e) e c = None \<and> \<not> has (addEntity w g e) e c"
    by (simp add: valid_def get_def has_def)
  moreover have "g \<in> set (getGroupsForEntity (addEntity w g e) e)"
    if kept: "list_all keeps_index ops" and reached: "w = world (perform_all new_session ops)"
  proof -
    from index_kept_perform_all [OF index_kept_new kept] reached
    have mi: "members_indexed w" and lf: "listeners_first w" by simp_all
    show ?thesis
    proof (cases "hasEntity w g e")
      case True
      with mi assms have "g \<in> set (getGroupsForEntity w e)"
        by (auto simp add: members_indexed_def hasEntity_getEntities Map_has_keys)
      with True show ?thesis by (simp add: getGroupsForEntity_addEntity)
    next
      case False
      with assms listeners_first_connected [OF lf assms] show ?thesis
        by (simp add: getGroupsForEntity_addEntity Set_add_def)
    qed
  qed
  ultimately show ?thesis by (simp add: hasEntity_getEntities)
qed

theorem addEntity_ignores_liveness_witness:
  "Map_has (groupObjs red_group_world) 1 \<and>
   \<not> valid red_group_world 5 \<and>
   added_listener_connected red_group_world 1 \<and>
   list_all keeps_index [CreateGroup, GroupSet 1 7 ''red''] \<and>
   group_get red_group_world 1 7 = Some ''red'' \<and>
   hasEntity (addEntity red_group_world 1 5) 1 5 \<and>
   5 \<in> set (getEntities (addEntity red_group_world 1 5) 1) \<and>
   1 \<in> set (getGroupsForEntity (addEntity red_group_world 1 5) 5) \<and>
   get (addEntity red_group_world 1 5) 5 7 = None \<and>
   \<not> has (addEntity red_group_world 1 5) 5 7 \<and>
   1 \<in> set (getGroupsForEntity (addEntity red_group_world 1 9) 9)"
proof -
  have g: "Map_has (groupObjs red_group_world) 1" by code_simp
  have dead: "\<not> valid red_group_world 5" by code_simp
  have new: "\<not> hasEntity red_group_world 1 5" by code_simp
  have conn: "added_listener_connected red_group_world 1" by code_simp
  have red: "group_get red_group_world 1 7 = Some ''red''" by code_simp
  have kept: "list_all keeps_index [CreateGroup, GroupSet 1 7 ''red'']" by code_simp
  have reached: "red_group_world = world (perform_all new_session [CreateGroup, GroupSet 1 7 ''red''])"
    by (simp add: red_group_world_def)
  note t = addEntity_ignores_liveness [OF g, of 5 7]
  from t have a: "hasEntity (addEntity red_group_world 1 5) 1 5" by (rule conjunct1)
  from t [THEN conjunct2]
  have b: "5 \<in> set (getEntities (addEntity red_group_world 1 5) 1)" by (rule conjunct1)
  from t [THEN conjunct2, THEN conjunct2, THEN conjunct1] new conn
  have c: "1 \<in> set (getGroupsForEntity (addEntity red_group_world 1 5) 5)" by simp
  from t [THEN conjunct2, THEN conjunct2, THEN conjunct2, THEN conjunct1, THEN mp, OF dead]
  have d: "get (addEntity red_group_world 1 5) 5 7 = None \<and>
           \<not> has (addEntity red_group_world 1 5) 5 7" by (rule conjunct2)
  from addEntity_ignores_liveness [OF g, of 9 7 "[CreateGroup, GroupSet 1 7 ''red'']",
      THEN conjunct2, THEN conjunct2, THEN conjunct2, THEN conjunct2, THEN mp,
      OF conjI [OF kept reached]]
  have e: "1 \<in> set (getGroupsForEntity (addEntity red_group_world 1 9) 9)" .
  from g dead conn kept red a b c d e show ?thesis by blast
qed

subsection \<open>Entity ids\<close>

lemma spawn_entities:
  "fst (spawn w) = nextEntityId w"
  "nextEntityId (snd (spawn w)) = nextEntityId w + 1"
  "set (entities (snd (spawn w))) = insert (nextEntityId w) (set (entities w))"
  by (auto simp add: spawn_def Let_def Set_add_def)

lemma despawn_entities_subset: "set (entities (snd (despawn w e))) \<subseteq> set (entities w)"
  by (auto simp add: despawn_def Let_def Set_delete_def split: option.splits)

lemma despawn_not_valid: "fst (despawn w e) \<Longrightarrow> \<not> valid (snd (despawn w e)) e"
  by (auto simp add: despawn_def Let_def valid_def Set_delete_def split: option.splits if_splits)

lemma despawn_some_entities_subset:
  "set (entities (fold (\<lambda>entity w'. if P entity then snd (despawn w' entity) else w') es w))
     \<subseteq> set (entities w)"
proof (induction es arbitrary: w)
  case Nil
  then show ?case by simp
next
  case (Cons a es)
  show ?case
  proof (cases "P a")
    case True
    with Cons.IH [of "snd (despawn w a)"] despawn_entities_subset [of w a] show ?thesis by auto
  next
    case False
    with Cons.IH [of w] show ?thesis by simp
  qed
qed

lemma restore_entity_entities:
  "set (entities (step_result (restore_entity s entry w))) \<subseteq> insert (fst entry) (set (entities w)) \<and>
   set (entities w) \<subseteq> set (entities (step_result (restore_entity s entry w)))"
  by (auto simp add: restore_entity_def step_result_def Let_def Set_add_def split: option.splits)

lemma restore_entities_entities:
  "set (entities (restore_entities s es w)) \<subseteq> set (entities w) \<union> fst ` set es \<and>
   set (entities w) \<subseteq> set (entities (restore_entities s es w))"
proof (induction es arbitrary: w)
  case Nil
  then show ?case by simp
next
  case (Cons entry es)
  show ?case
  proof (cases "restore_entity s entry w")
    case (Continue w')
    with restore_entity_entities [of s entry w] Cons.IH [of w'] show ?thesis
      by (auto simp add: step_result_def)
  next
    case (Return w')
    with restore_entity_entities [of s entry w] show ?thesis
      by (auto simp add: step_result_def)
  qed
qed

lemma revert_entities_subset:
  "set (entities (revert S w)) \<subseteq> set (entities w) \<union> fst ` set (entityStates S)"
proof -
  let ?w1 = "if \<not> isPartial S then despawn_unlisted S w else w"
  have "set (entities ?w1) \<subseteq> set (entities w)"
    by (simp add: despawn_unlisted_def despawn_some_entities_subset)
  moreover have "set (entities (revert S w)) \<subseteq> set (entities ?w1) \<union> fst ` set (entityStates S)"
    using restore_entities_entities [of S "entityStates S" ?w1] by (simp add: revert_def Let_def)
  ultimately show ?thesis by blast
qed

lemma revert_nextEntityId [simp]: "nextEntityId (revert S w) = nextEntityId w"
  by (simp add: revert_def Let_def despawn_unlisted_def despawn_some_frame)

lemma capture_keys:
  "capture cm filt es acc = Inr st \<Longrightarrow> fst ` set st \<subseteq> fst ` set acc \<union> set es"
proof (induction es arbitrary: acc)
  case Nil
  then show ?case by auto
next
  case (Cons e es)
  from Cons.prems obtain comps where comps: "map_of cm e = Some comps"
    by (auto split: option.splits)
  let ?partial = "(case filt of None \<Rightarrow> False | Some cs \<Rightarrow> cs \<noteq> [])"
  let ?cloned = "clone_filtered (case filt of None \<Rightarrow> [] | Some cs \<Rightarrow> cs) comps"
  consider (a) "?partial" "?cloned \<noteq> []" | (b) "?partial" "?cloned = []" | (c) "\<not> ?partial"
    by blast
  then show ?case
  proof cases
    case a
    with Cons.prems comps have "capture cm filt es (AList.update e ?cloned acc) = Inr st"
      by (simp add: Let_def)
    from Cons.IH [OF this] show ?thesis by (auto simp add: dom_update)
  next
    case b
    with Cons.prems comps have "capture cm filt es acc = Inr st"
      by (simp add: Let_def)
    from Cons.IH [OF this] show ?thesis by auto
  next
    case c
    with Cons.prems comps have "capture cm filt es (AList.update e (clone_all comps) acc) = Inr st"
      by (simp add: Let_def)
    from Cons.IH [OF this] show ?thesis by (auto simp add: dom_update)
  qed
qed

lemma snapshot_keys:
  "snapshot w idc clk filt = Inr (Some S) \<Longrightarrow> fst ` set (entityStates S) \<subseteq> set (entities w)"
proof -
  assume a: "snapshot w idc clk filt = Inr (Some S)"
  then obtain st where st: "capture (components w) filt (entities w) [] = Inr st"
    and S: "entityStates S = st"
    by (auto simp add: snapshot_def createSnapshot_def split: sum.splits)
  from capture_keys [OF st] S show ?thesis by simp
qed

lemma mutate_ids:
  "nextEntityId w \<le> nextEntityId (mutate w m)"
  "set (entities (mutate w m)) \<subseteq> set (entities w) \<union> {e. nextEntityId w \<le> e \<and> e < nextEntityId (mutate w m)}"
  using despawn_entities_subset [of w]
  by (cases m; auto simp add: spawn_entities)+

lemma remove_members_frame [simp]:
  "entities (fold (\<lambda>entity w'. removeEntity w' g entity) es w) = entities w"
  "components (fold (\<lambda>entity w'. removeEntity w' g entity) es w) = components w"
  "nextEntityId (fold (\<lambda>entity w'. removeEntity w' g entity) es w) = nextEntityId w"
  "nextGroupId (fold (\<lambda>entity w'. removeEntity w' g entity) es w) = nextGroupId w"
  "groups (fold (\<lambda>entity w'. removeEntity w' g entity) es w) = groups w"
  "archetypeToEntities (fold (\<lambda>entity w'. removeEntity w' g entity) es w) = archetypeToEntities w"
  "entityToArchetype (fold (\<lambda>entity w'. removeEntity w' g entity) es w) = entityToArchetype w"
  by (induction es arbitrary: w; simp)+

lemma session_ok_perform: "session_ok s \<Longrightarrow> session_ok (perform s op)"
proof (cases op)
  case (Mutate m)
  assume ok: "session_ok s"
  with mutate_ids [of "world s" m] Mutate show ?thesis
    by (fastforce simp add: session_ok_def ids_issued_def)
next
  case (TakeSnapshot filt clk)
  assume ok: "session_ok s"
  show ?thesis
  proof (cases "snapshot (world s) (idCounter s) clk filt")
    case (Inl err)
    with ok TakeSnapshot show ?thesis by simp
  next
    case (Inr r)
    show ?thesis
    proof (cases r)
      case None
      with ok TakeSnapshot Inr show ?thesis by simp
    next
      case (Some S)
      with Inr snapshot_keys [of "world s" "idCounter s" clk filt S]
      have "fst ` set (entityStates S) \<subseteq> set (entities (world s))" by simp
      with ok TakeSnapshot Inr Some show ?thesis
        by (auto simp add: session_ok_def ids_issued_def)
    qed
  qed
next
  case (Revert k)
  assume ok: "session_ok s"
  show ?thesis
  proof (cases "k < length (taken s)")
    case True
    then have mem: "taken s ! k \<in> set (taken s)" by simp
    have "e < nextEntityId (world s)" if "e \<in> set (entities (revert (taken s ! k) (world s)))" for e
    proof -
      from that revert_entities_subset [of "taken s ! k" "world s"]
      have "e \<in> set (entities (world s)) \<or> e \<in> fst ` set (entityStates (taken s ! k))" by blast
      with ok mem show ?thesis unfolding session_ok_def ids_issued_def by blast
    qed
    with ok Revert True show ?thesis
      by (simp add: session_ok_def ids_issued_def)
  next
    case False
    with ok Revert show ?thesis by simp
  qed
next
  case CreateGroup
  assume "session_ok s"
  with CreateGroup show ?thesis
    by (simp add: session_ok_def ids_issued_def createGroup_def Let_def)
next
  case (RemoveGroup g)
  assume "session_ok s"
  with RemoveGroup show ?thesis
    by (simp add: session_ok_def ids_issued_def removeGroup_def Let_def)
next
  case (AddEntity g e)
  assume "session_ok s"
  with AddEntity show ?thesis by (simp add: session_ok_def ids_issued_def)
next
  case (RemoveEntity g e)
  assume "session_ok s"
  with RemoveEntity show ?thesis by (simp add: session_ok_def ids_issued_def)
next
  case (GroupSet g c v)
  assume "session_ok s"
  with GroupSet show ?thesis
    by (simp add: session_ok_def ids_issued_def group_set_def split: option.splits)
next
  case (GroupRemove g c)
  assume "session_ok s"
  with GroupRemove show ?thesis
    by (simp add: session_ok_def ids_issued_def group_remove_def split: option.splits)
next
  case (ClearAdded g)
  assume "session_ok s"
  with ClearAdded show ?thesis by (simp add: session_ok_def ids_issued_def)
next
  case (ClearRemoved g)
  assume "session_ok s"
  with ClearRemoved show ?thesis by (simp add: session_ok_def ids_issued_def)
next
  case (ObserveAdded g n)
  assume "session_ok s"
  with ObserveAdded show ?thesis by (simp add: session_ok_def ids_issued_def)
next
  case (ObserveRemoved g n)
  assume "session_ok s"
  with ObserveRemoved show ?thesis by (simp add: session_ok_def ids_issued_def)
next
  case (FireAdded g e)
  assume "session_ok s"
  with FireAdded show ?thesis by (simp add: session_ok_def ids_issued_def)
next
  case (FireRemoved g e)
  assume "session_ok s"
  with FireRemoved show ?thesis by (simp add: session_ok_def ids_issued_def)
qed

lemma session_ok_perform_all: "session_ok s \<Longrightarrow> session_ok (perform_all s ops)"
  unfolding perform_all_def
  by (induction ops arbitrary: s) (simp_all add: session_ok_perform)

lemma session_ok_new: "session_ok new_session"
  by (simp add: session_ok_def ids_issued_def new_session_def createWorld_def)

lemma perform_counter_mono: "nextEntityId (world s) \<le> nextEntityId (world (perform s op))"
  by (cases op)
     (auto simp add: mutate_ids createGroup_def removeGroup_def Let_def group_set_def group_remove_def
      split: sum.splits option.splits)

lemma spawn_log_fresh:
  "session_ok s \<Longrightarrow> (x, live) \<in> set (spawn_log s ops) \<Longrightarrow> nextEntityId (world s) \<le> x \<and> \<not> live"
proof (induction ops arbitrary: s)
  case Nil
  then show ?case by simp
next
  case (Cons op ops)
  from Cons.prems(2) consider
    (head) "op = Mutate Spawn" "x = fst (spawn (world s))" "live = valid (world s) (fst (spawn (world s)))"
    | (tail) "(x, live) \<in> set (spawn_log (perform s op) ops)"
    by (auto split: if_splits)
  then show ?case
  proof cases
    case head
    with Cons.prems(1) show ?thesis
      by (auto simp add: spawn_entities session_ok_def ids_issued_def valid_def)
  next
    case tail
    from Cons.IH [OF session_ok_perform [OF Cons.prems(1)] tail] perform_counter_mono [of s op]
    show ?thesis by simp
  qed
qed


text \<open>
  C8: in every session reached from a new world, by any operations (mutations, group
  calls, snapshots and reverts to snapshots of this world), when \<open>despawn(e)\<close> returns
  true then \<open>e\<close> is not valid right afterwards, and every later \<open>spawn()\<close>, whatever
  operations come in between, returns an id that differs from \<open>e\<close> and is not live at
  that moment; a revert may make \<open>e\<close> live again meanwhile.
\<close>

theorem entity_ids_never_reused:
  assumes "s = perform_all new_session ops0"
    and "fst (despawn (world s) e)"
  shows "\<not> valid (snd (despawn (world s) e)) e \<and>
         (\<forall>(x, live) \<in> set (spawn_log (perform s (Mutate (Despawn e))) ops). x \<noteq> e \<and> \<not> live)"
proof -
  from assms(1) have ok: "session_ok s"
    by (simp add: session_ok_perform_all session_ok_new)
  from assms(2) have "valid (world s) e"
    by (auto simp add: despawn_def split: if_splits)
  with ok have below: "e < nextEntityId (world s)"
    by (simp add: session_ok_def ids_issued_def valid_def)
  let ?s' = "perform s (Mutate (Despawn e))"
  have ok': "session_ok ?s'" using ok by (rule session_ok_perform)
  have "x \<noteq> e \<and> \<not> live" if "(x, live) \<in> set (spawn_log ?s' ops)" for x live
  proof -
    from spawn_log_fresh [OF ok' that] have "nextEntityId (world ?s') \<le> x" and "\<not> live" by simp_all
    with below show ?thesis by simp
  qed
  with despawn_not_valid [OF assms(2)] show ?thesis by blast
qed

theorem entity_ids_never_reused_witness:
  "fst (despawn (world respawn_session) 1) \<and>
   \<not> valid (snd (despawn (world respawn_session) 1)) 1 \<and>
   valid (world (perform_all (perform respawn_session (Mutate (Despawn 1))) [Revert 0])) 1 \<and>
   spawn_log (perform respawn_session (Mutate (Despawn 1))) [Revert 0, Mutate Spawn] = [(2, False)] \<and>
   (2, False) \<in> set (spawn_log (perform respawn_session (Mutate (Despawn 1))) [Revert 0, Mutate Spawn]) \<and>
   (2::nat) \<noteq> 1"
proof -
  have gone: "fst (despawn (world respawn_session) 1)"
    by code_simp
  have again: "valid (world (perform_all (perform respawn_session (Mutate (Despawn 1))) [Revert 0])) 1"
    by code_simp
  have log: "spawn_log (perform respawn_session (Mutate (Despawn 1))) [Revert 0, Mutate Spawn] = [(2, False)]"
    by code_simp
  have mem: "(2, False) \<in> set (spawn_log (perform respawn_session (Mutate (Despawn 1))) [Revert 0, Mutate Spawn])"
    unfolding log by simp
  note never = entity_ids_never_reused [OF respawn_session_def gone, of "[Revert 0, Mutate Spawn]"]
  from never have dead: "\<not> valid (snd (despawn (world respawn_session) 1)) 1"
    by (rule conjunct1)
  from never [THEN conjunct2] mem have "(2::nat) \<noteq> 1 \<and> \<not> False"
    by blast
  with gone dead again log mem show ?thesis by blast
qed

subsection \<open>Reverting a partial snapshot\<close>

lemma restore_components_lookup:
  "map_of (restore_components s t cur) c = map_of cur c \<or>
   (\<exists>v. (c, v) \<in> set t \<and> allowed s c \<and> map_of (restore_components s t cur) c = Some v)"
proof -
  let ?f = "\<lambda>(c, val) cur.
             if \<not> isPartial s \<or> snap_components s = None \<or>
                c \<in> set (case snap_components s of None \<Rightarrow> [] | Some cs \<Rightarrow> cs)
             then AList.update c (deepClone val) cur
             else cur"
  have "map_of (fold ?f t cur) c = map_of cur c \<or>
        (\<exists>v. (c, v) \<in> set t \<and> allowed s c \<and> map_of (fold ?f t cur) c = Some v)"
  proof (induction t arbitrary: cur)
    case Nil
    then show ?case by simp
  next
    case (Cons p t)
    obtain k val where p: "p = (k, val)" by (cases p)
    from Cons.IH [of "?f p cur"]
    show ?case
      by (auto simp add: p update_conv' allowed_def deepClone_def split: if_splits)
  qed
  then show ?thesis by (simp add: restore_components_def)
qed

lemma own_update_table:
  "own (w\<lparr>components := AList.update e t (components w)\<rparr>) e' c =
     (if e' = e then map_of t c else own w e' c)"
  by (simp add: own_def update_conv')

lemma tables_match_valid:
  "tables_match w \<Longrightarrow> valid w e = Map_has (components w) e"
  by (auto simp add: tables_match_def valid_def Map_has_def map_of_eq_None_iff)

lemma restore_entity_partial:
  assumes "isPartial s" and "tables_match w"
  shows "\<exists>w'. restore_entity s entry w = Continue w' \<and> tables_match w' \<and>
           set (entities w') = set (entities w) \<union> (if snd entry \<noteq> [] then {fst entry} else {}) \<and>
           (\<forall>e c. own w' e c = own w e c \<or>
                  (e = fst entry \<and> (\<exists>v. (c, v) \<in> set (snd entry) \<and> allowed s c \<and>
                                       own w' e c = Some v)))"
proof (cases "fst entry \<in> set (entities w)")
  case True
  with assms(2) obtain cur where cur: "map_of (components w) (fst entry) = Some cur"
    using tables_match_valid [of w "fst entry"] by (auto simp add: valid_def Map_has_def)
  let ?c2 = "restore_components s (snd entry) cur"
  let ?w' = "w\<lparr>components := AList.update (fst entry) ?c2 (components w)\<rparr>"
  from True cur assms(1) have step: "restore_entity s entry w = Continue ?w'"
    by (simp add: restore_entity_def Let_def)
  from assms(2) True have tm: "tables_match ?w'"
    by (auto simp add: tables_match_def dom_update)
  have ents: "set (entities ?w') = set (entities w) \<union> (if snd entry \<noteq> [] then {fst entry} else {})"
    using True by auto
  have "own ?w' e c = own w e c \<or>
        (e = fst entry \<and> (\<exists>v. (c, v) \<in> set (snd entry) \<and> allowed s c \<and> own ?w' e c = Some v))"
    for e c
  proof (cases "e = fst entry")
    case True
    have "own ?w' (fst entry) c = map_of ?c2 c"
      by (simp add: own_def update_conv')
    moreover have "own w (fst entry) c = map_of cur c"
      using cur by (simp add: own_def)
    ultimately show ?thesis
      using restore_components_lookup [of s "snd entry" cur c] True by auto
  next
    case False
    then have "own ?w' e c = own w e c"
      by (simp add: own_def update_conv')
    then show ?thesis by simp
  qed
  with step tm ents show ?thesis by blast
next
  case False
  show ?thesis
  proof (cases "snd entry = []")
    case True
    with False assms(2) show ?thesis by (simp add: restore_entity_def Let_def)
  next
    case nonempty: False
    let ?w1 = "w\<lparr>entities := Set_add (fst entry) (entities w),
                  components := AList.update (fst entry) [] (components w)\<rparr>"
    let ?c2 = "restore_components s (snd entry) []"
    let ?w' = "?w1\<lparr>components := AList.update (fst entry) ?c2 (components ?w1)\<rparr>"
    from False nonempty assms(1) have step: "restore_entity s entry w = Continue ?w'"
      by (simp add: restore_entity_def Let_def update_conv')
    from assms(2) have tm: "tables_match ?w'"
      by (auto simp add: tables_match_def dom_update Set_add_def)
    have ents: "set (entities ?w') = set (entities w) \<union> (if snd entry \<noteq> [] then {fst entry} else {})"
      using nonempty by (auto simp add: Set_add_def)
    from False assms(2) have none: "own w (fst entry) c = None" for c
      using tables_match_valid [of w "fst entry"]
      by (auto simp add: own_def valid_def Map_has_def split: option.splits)
    have "own ?w' e c = own w e c \<or>
          (e = fst entry \<and> (\<exists>v. (c, v) \<in> set (snd entry) \<and> allowed s c \<and> own ?w' e c = Some v))"
      for e c
    proof (cases "e = fst entry")
      case True
      have "own ?w' (fst entry) c = map_of ?c2 c"
        by (simp add: own_def update_conv')
      with restore_components_lookup [of s "snd entry" "[]" c] none [of c] True
      show ?thesis by auto
    next
      case False
      then have "own ?w' e c = own w e c"
        by (simp add: own_def update_conv')
      then show ?thesis by simp
    qed
    with step tm ents show ?thesis by blast
  qed
qed

lemma restore_entities_partial:
  assumes "isPartial s" and "tables_match w"
  shows "tables_match (restore_entities s es w) \<and>
         set (entities (restore_entities s es w)) =
           set (entities w) \<union> {e. \<exists>t. (e, t) \<in> set es \<and> t \<noteq> []} \<and>
         (\<forall>e c. own (restore_entities s es w) e c = own w e c \<or>
                (\<exists>t v. (e, t) \<in> set es \<and> (c, v) \<in> set t \<and> allowed s c \<and>
                       own (restore_entities s es w) e c = Some v))"
  using assms(2)
proof (induction es arbitrary: w)
  case Nil
  then show ?case by simp
next
  case (Cons entry es)
  from restore_entity_partial [OF assms(1) Cons.prems, of entry]
  obtain w' where step: "restore_entity s entry w = Continue w'"
    and tm: "tables_match w'"
    and ents: "set (entities w') = set (entities w) \<union> (if snd entry \<noteq> [] then {fst entry} else {})"
    and own': "\<And>e c. own w' e c = own w e c \<or>
                  (e = fst entry \<and> (\<exists>v. (c, v) \<in> set (snd entry) \<and> allowed s c \<and>
                                       own w' e c = Some v))"
    by blast
  let ?r = "restore_entities s es w'"
  from Cons.IH [OF tm] have
    r1: "tables_match ?r" and
    r2: "set (entities ?r) = set (entities w') \<union> {e. \<exists>t. (e, t) \<in> set es \<and> t \<noteq> []}" and
    r3: "\<And>e c. own ?r e c = own w' e c \<or>
                (\<exists>t v. (e, t) \<in> set es \<and> (c, v) \<in> set t \<and> allowed s c \<and> own ?r e c = Some v)"
    by blast+
  have eq: "restore_entities s (entry # es) w = ?r" using step by simp
  have e2: "set (entities ?r) = set (entities w) \<union> {e. \<exists>t. (e, t) \<in> set (entry # es) \<and> t \<noteq> []}"
    unfolding r2 ents by (cases entry) auto
  have e3: "own ?r e c = own w e c \<or>
                (\<exists>t v. (e, t) \<in> set (entry # es) \<and> (c, v) \<in> set t \<and> allowed s c \<and> own ?r e c = Some v)"
    for e c
  proof -
    from r3 [of e c] show ?thesis
    proof
      assume same: "own ?r e c = own w' e c"
      from own' [of e c] show ?thesis
      proof
        assume "own w' e c = own w e c"
        with same show ?thesis by simp
      next
        assume "e = fst entry \<and> (\<exists>v. (c, v) \<in> set (snd entry) \<and> allowed s c \<and> own w' e c = Some v)"
        then obtain v where "e = fst entry" "(c, v) \<in> set (snd entry)" "allowed s c" "own w' e c = Some v"
          by blast
        with same have "(e, snd entry) \<in> set (entry # es) \<and> (c, v) \<in> set (snd entry) \<and>
                        allowed s c \<and> own ?r e c = Some v"
          by (cases entry) simp
        then show ?thesis by blast
      qed
    next
      assume "\<exists>t v. (e, t) \<in> set es \<and> (c, v) \<in> set t \<and> allowed s c \<and> own ?r e c = Some v"
      then show ?thesis by auto
    qed
  qed
  from r1 e2 e3 show ?case unfolding eq by blast
qed


text \<open>
  C6: reverting a snapshot with a non-empty component filter, in a world where the live
  entities are those with a component table, despawns no entity, removes no component
  from any own table and changes no own value of a component outside the filter; an own
  value that changes becomes a captured value of a filtered component of a captured
  entity; the entities live afterwards are those that were live and the captured ones
  with a non-empty captured table; group state and the entity counter are unchanged.
\<close>

theorem partial_revert_frame:
  assumes "snap_components S = Some filt" and "filt \<noteq> []" and "tables_match w"
  shows "set (entities w) \<subseteq> set (entities (revert S w)) \<and>
         (\<forall>e. valid (revert S w) e \<longleftrightarrow>
                valid w e \<or> (\<exists>t. (e, t) \<in> set (entityStates S) \<and> t \<noteq> [])) \<and>
         (\<forall>e c. own w e c \<noteq> None \<longrightarrow> own (revert S w) e c \<noteq> None) \<and>
         (\<forall>e c. c \<notin> set filt \<longrightarrow> own (revert S w) e c = own w e c) \<and>
         (\<forall>e c. own (revert S w) e c \<noteq> own w e c \<longrightarrow>
                  (\<exists>t v. (e, t) \<in> set (entityStates S) \<and> (c, v) \<in> set t \<and> c \<in> set filt \<and>
                         own (revert S w) e c = Some v)) \<and>
         groupObjs (revert S w) = groupObjs w \<and>
         entityToGroups (revert S w) = entityToGroups w \<and>
         groups (revert S w) = groups w \<and>
         nextEntityId (revert S w) = nextEntityId w"
proof -
  from assms(1,2) have part: "isPartial S" by (simp add: isPartial_def)
  then have rev: "revert S w = restore_entities S (entityStates S) w"
    by (simp add: revert_def Let_def)
  from assms(1,2) have al: "allowed S c = (c \<in> set filt)" for c
    by (simp add: allowed_def isPartial_def)
  from restore_entities_partial [OF part assms(3), of "entityStates S"] have
    ents: "set (entities (revert S w)) =
             set (entities w) \<union> {e. \<exists>t. (e, t) \<in> set (entityStates S) \<and> t \<noteq> []}" and
    own': "\<And>e c. own (revert S w) e c = own w e c \<or>
                (\<exists>t v. (e, t) \<in> set (entityStates S) \<and> (c, v) \<in> set t \<and> c \<in> set filt \<and>
                       own (revert S w) e c = Some v)"
    unfolding rev al by blast+
  from ents have a: "set (entities w) \<subseteq> set (entities (revert S w))" by blast
  from ents have b: "\<forall>e. valid (revert S w) e \<longleftrightarrow>
                valid w e \<or> (\<exists>t. (e, t) \<in> set (entityStates S) \<and> t \<noteq> [])"
    by (auto simp add: valid_def)
  have c: "\<forall>e c. own w e c \<noteq> None \<longrightarrow> own (revert S w) e c \<noteq> None"
  proof (intro allI impI)
    fix e c assume "own w e c \<noteq> None"
    with own' [of e c] show "own (revert S w) e c \<noteq> None" by auto
  qed
  have d: "\<forall>e c. c \<notin> set filt \<longrightarrow> own (revert S w) e c = own w e c"
    using own' by blast
  have e: "\<forall>e c. own (revert S w) e c \<noteq> own w e c \<longrightarrow>
                  (\<exists>t v. (e, t) \<in> set (entityStates S) \<and> (c, v) \<in> set t \<and> c \<in> set filt \<and>
                         own (revert S w) e c = Some v)"
    using own' by blast
  have f: "groupObjs (revert S w) = groupObjs w" "entityToGroups (revert S w) = entityToGroups w"
    "groups (revert S w) = groups w" "nextEntityId (revert S w) = nextEntityId w"
    unfolding rev by simp_all
  from a b c d e f show ?thesis by blast
qed

theorem partial_revert_frame_witness:
  "snapshot filtered_world 1 0 (Some [1]) = Inr (Some filtered_snapshot) \<and>
   tables_match changed_world \<and>
   own changed_world 1 1 = Some 50 \<and>
   own (revert filtered_snapshot changed_world) 1 1 = Some 100 \<and>
   own (revert filtered_snapshot changed_world) 1 2 = Some 9 \<and>
   own (revert filtered_snapshot changed_world) 3 1 = Some 1 \<and>
   valid (revert filtered_snapshot changed_world) 3 \<and>
   \<not> valid (revert filtered_snapshot changed_world) 2 \<and>
   valid (revert filtered_snapshot (snd (despawn changed_world 1))) 1"
proof -
  have snap: "snapshot filtered_world 1 0 (Some [1]) = Inr (Some filtered_snapshot)"
    by code_simp
  have filt: "snap_components filtered_snapshot = Some [1]" "[1::nat] \<noteq> []"
    by (simp_all add: filtered_snapshot_def)
  have tm: "tables_match changed_world"
    by code_simp
  have tm': "tables_match (snd (despawn changed_world 1))"
    by code_simp
  have before: "own changed_world 1 1 = Some 50" "own changed_world 1 2 = Some 9"
    "own changed_world 3 1 = Some 1" "valid changed_world 3" "\<not> valid changed_world 2"
    by code_simp+
  have restored: "own (revert filtered_snapshot changed_world) 1 1 = Some 100"
    by code_simp
  have states: "entityStates filtered_snapshot = [(1, [(1, 100)])]"
    by (simp add: filtered_snapshot_def)
  note frame = partial_revert_frame [OF filt tm]
  note lives = frame [THEN conjunct2, THEN conjunct1]
  note outside = frame [THEN conjunct2, THEN conjunct2, THEN conjunct2, THEN conjunct1]
  note changes = frame [THEN conjunct2, THEN conjunct2, THEN conjunct2, THEN conjunct2, THEN conjunct1]
  from outside before have pos: "own (revert filtered_snapshot changed_world) 1 2 = Some 9"
    by simp
  have "own (revert filtered_snapshot changed_world) 3 1 = own changed_world 3 1"
  proof (rule ccontr)
    assume "own (revert filtered_snapshot changed_world) 3 1 \<noteq> own changed_world 3 1"
    with changes obtain t where "(3, t) \<in> set (entityStates filtered_snapshot)" by blast
    with states show False by simp
  qed
  with before have other: "own (revert filtered_snapshot changed_world) 3 1 = Some 1"
    by simp
  from lives before states have alive: "valid (revert filtered_snapshot changed_world) 3"
    "\<not> valid (revert filtered_snapshot changed_world) 2"
    by simp_all
  from partial_revert_frame [OF filt tm', THEN conjunct2, THEN conjunct1] states
  have again: "valid (revert filtered_snapshot (snd (despawn changed_world 1))) 1"
    by simp
  from snap tm before(1) restored pos other alive again show ?thesis by blast
qed

subsection \<open>Well-formed worlds and full snapshots\<close>

subsection \<open>What a full snapshot holds\<close>

lemma clone_all_append:
  "distinct (map fst t) \<Longrightarrow> fst ` set t \<inter> fst ` set acc = {} \<Longrightarrow>
   fold (\<lambda>(c, val) cloned. AList.update c (deepClone val) cloned) t acc = acc @ t"
proof (induction t arbitrary: acc)
  case Nil
  then show ?case by simp
next
  case (Cons p t)
  obtain c v where p: "p = (c, v)" by (cases p)
  from Cons.prems p have notin: "c \<notin> fst ` set acc" by auto
  have upd: "AList.update c v acc = acc @ [(c, v)]" using notin
    by (induction acc) auto
  from Cons.prems p have "fst ` set t \<inter> fst ` set (acc @ [(c, v)]) = {}" by auto
  with Cons.IH [of "acc @ [(c, v)]"] Cons.prems p upd show ?case
    by (simp add: deepClone_def)
qed

lemma clone_all_distinct: "distinct (map fst t) \<Longrightarrow> clone_all t = t"
  using clone_all_append [of t "[]"] by (simp add: clone_all_def)

lemma capture_full:
  "\<forall>e \<in> set es. Map_has cm e \<Longrightarrow>
   capture cm None es acc =
     Inr (fold (\<lambda>e st. AList.update e (clone_all (the (map_of cm e))) st) es acc)"
  by (induction es arbitrary: acc) (auto simp add: Map_has_def)

lemma map_of_fold_update:
  "map_of (fold (\<lambda>e st. AList.update e (F e) st) es acc) x =
     (if x \<in> set es then Some (F x) else map_of acc x)"
  by (induction es arbitrary: acc) (auto simp add: update_conv')

lemma distinct_fold_update:
  "distinct (map fst acc) \<Longrightarrow> distinct (map fst (fold (\<lambda>e st. AList.update e (F e) st) es acc))"
  by (induction es arbitrary: acc) (simp_all add: distinct_update)

lemma full_snapshot_states:
  assumes "tables_match w0" and "tables_distinct w0"
    and "snapshot w0 idc clk None = Inr (Some S0)"
  shows "snap_components S0 = None"
    and "distinct (map fst (entityStates S0))"
    and "map_of (entityStates S0) e = (if valid w0 e then map_of (components w0) e else None)"
    and "(e, t) \<in> set (entityStates S0) \<Longrightarrow> distinct (map fst t)"
proof -
  from assms(1) have all: "\<forall>e \<in> set (entities w0). Map_has (components w0) e"
    by (simp add: tables_match_valid [symmetric] valid_def)
  let ?F = "\<lambda>e. clone_all (the (map_of (components w0) e))"
  from assms(3) capture_full [OF all, of "[]"]
  have st: "entityStates S0 = fold (\<lambda>e st. AList.update e (?F e) st) (entities w0) []"
    and sc: "snap_components S0 = None"
    by (auto simp add: snapshot_def createSnapshot_def split: sum.splits)
  show "snap_components S0 = None" by (rule sc)
  show d: "distinct (map fst (entityStates S0))"
    unfolding st by (rule distinct_fold_update) simp
  have tab: "distinct (map fst t')" if "map_of (components w0) e' = Some t'" for e' t'
    using that assms(2) by (auto simp add: tables_distinct_def dest!: map_of_SomeD)
  show m: "map_of (entityStates S0) e = (if valid w0 e then map_of (components w0) e else None)"
  proof (cases "valid w0 e")
    case True
    with all obtain t' where t': "map_of (components w0) e = Some t'"
      by (auto simp add: valid_def Map_has_def)
    with True tab [OF t'] show ?thesis
      unfolding st map_of_fold_update by (simp add: valid_def clone_all_distinct)
  next
    case False
    then show ?thesis unfolding st map_of_fold_update by (simp add: valid_def)
  qed
  show "distinct (map fst t)" if "(e, t) \<in> set (entityStates S0)"
  proof -
    from that d have "map_of (entityStates S0) e = Some t" by simp
    with m have "map_of (components w0) e = Some t" by (simp split: if_splits)
    then show ?thesis by (rule tab)
  qed
qed

subsection \<open>Well-formed worlds\<close>

lemma set_update_subset: "set (AList.update k v al) \<subseteq> insert (k, v) (set al)"
  by (induction al) auto

lemma set_delete_subset: "set (AList.delete k al) \<subseteq> set al"
  by (auto simp add: AList.delete_eq)

lemma keys_delete: "fst ` set (AList.delete k al) = fst ` set al - {k}"
  by (induction al) auto

lemma despawn_result:
  "fst (despawn w e) = (valid w e \<and> Map_has (components w) e)"
  "entities (snd (despawn w e)) =
     (if valid w e \<and> Map_has (components w) e then removeAll e (entities w) else entities w)"
  "components (snd (despawn w e)) =
     (if valid w e \<and> Map_has (components w) e then AList.delete e (components w) else components w)"
  by (auto simp add: despawn_def Let_def Map_has_def Set_delete_def split: option.splits)

lemma tables_distinct_table:
  "tables_distinct w \<Longrightarrow> map_of (components w) e = Some t \<Longrightarrow> distinct (map fst t)"
  by (auto simp add: tables_distinct_def dest!: map_of_SomeD)

lemma tables_distinct_update:
  "tables_distinct w \<Longrightarrow> distinct (map fst t) \<Longrightarrow> components w' = AList.update e t (components w)
   \<Longrightarrow> tables_distinct w'"
  using set_update_subset [of e t "components w"] by (auto simp add: tables_distinct_def)

lemma tables_distinct_delete:
  "tables_distinct w \<Longrightarrow> components w' = AList.delete e (components w) \<Longrightarrow> tables_distinct w'"
  using set_delete_subset [of e "components w"] by (auto simp add: tables_distinct_def)

lemma well_formed_spawn: "well_formed w \<Longrightarrow> well_formed (snd (spawn w))"
  unfolding well_formed_def
proof (intro conjI)
  assume a: "tables_match w \<and> tables_distinct w \<and> ids_issued w"
  then show "tables_match (snd (spawn w))"
    by (auto simp add: tables_match_def spawn_def Let_def Set_add_def dom_update)
  from a show "tables_distinct (snd (spawn w))"
    by (auto intro: tables_distinct_update [of w "[]" _ "nextEntityId w"] simp add: spawn_def Let_def)
  from a show "ids_issued (snd (spawn w))"
    by (auto simp add: ids_issued_def spawn_def Let_def Set_add_def)
qed

lemma well_formed_despawn: "well_formed w \<Longrightarrow> well_formed (snd (despawn w e))"
  unfolding well_formed_def
proof (intro conjI)
  assume a: "tables_match w \<and> tables_distinct w \<and> ids_issued w"
  then show "tables_match (snd (despawn w e))"
    by (simp add: tables_match_def despawn_result keys_delete)
  from a show "tables_distinct (snd (despawn w e))"
    using set_delete_subset [of e "components w"]
    by (auto simp add: tables_distinct_def despawn_result)
  from a show "ids_issued (snd (despawn w e))"
    by (auto simp add: ids_issued_def despawn_result)
qed

lemma well_formed_world_set:
  "well_formed w \<Longrightarrow> well_formed (case world_set w e c v of Inl err \<Rightarrow> w | Inr w' \<Rightarrow> w')"
  unfolding well_formed_def
proof (intro conjI)
  assume a: "tables_match w \<and> tables_distinct w \<and> ids_issued w"
  then show "tables_match (case world_set w e c v of Inl err \<Rightarrow> w | Inr w' \<Rightarrow> w')"
    by (auto simp add: tables_match_def world_set_def dom_update split: option.splits
        dest: map_of_SomeD intro: rev_image_eqI)
  from a show "tables_distinct (case world_set w e c v of Inl err \<Rightarrow> w | Inr w' \<Rightarrow> w')"
    by (auto simp add: world_set_def distinct_update split: option.splits
        dest: tables_distinct_table
        intro!: tables_distinct_update [of w "AList.update c v _" _ e])
  from a show "ids_issued (case world_set w e c v of Inl err \<Rightarrow> w | Inr w' \<Rightarrow> w')"
    by (simp add: ids_issued_def)
qed

lemma well_formed_remove: "well_formed w \<Longrightarrow> well_formed (snd (remove w e c))"
  unfolding well_formed_def
proof (intro conjI)
  assume a: "tables_match w \<and> tables_distinct w \<and> ids_issued w"
  then show "tables_match (snd (remove w e c))"
    by (auto simp add: tables_match_def remove_def Let_def dom_update split: option.splits
        dest: map_of_SomeD intro: rev_image_eqI)
  from a show "tables_distinct (snd (remove w e c))"
    by (auto simp add: remove_def Let_def distinct_delete split: option.splits
        dest: tables_distinct_table
        intro!: tables_distinct_update [of w "AList.delete c _" _ e])
  from a show "ids_issued (snd (remove w e c))"
    by (simp add: ids_issued_def)
qed

lemma well_formed_mutate: "well_formed w \<Longrightarrow> well_formed (mutate w m)"
  by (cases m) (simp_all add: well_formed_spawn well_formed_despawn well_formed_world_set
      well_formed_remove)

lemma carried_over_refl: "carried_over w w"
  by (simp add: carried_over_def)

lemma valid_mutate:
  assumes "well_formed w"
  shows "valid (mutate w m) e =
           (case m of Spawn \<Rightarrow> valid w e \<or> e = nextEntityId w
            | Despawn x \<Rightarrow> valid w e \<and> e \<noteq> x
            | _ \<Rightarrow> valid w e)"
proof (cases m)
  case Spawn
  then show ?thesis by (auto simp add: valid_def spawn_entities)
next
  case (Despawn x)
  from assms have "valid w x = Map_has (components w) x"
    by (simp add: well_formed_def tables_match_valid)
  with Despawn show ?thesis by (auto simp add: valid_def despawn_result)
qed (simp_all add: valid_def)

lemma groups_of_mutate:
  "getGroupsForEntity (mutate w m) e =
     (case m of Despawn x \<Rightarrow> if valid w x \<and> e = x then [] else getGroupsForEntity w e
      | _ \<Rightarrow> getGroupsForEntity w e)"
  by (cases m) (simp_all add: getGroupsForEntity_despawn, simp_all add: getGroupsForEntity_def)

lemma carried_over_mutate:
  assumes "carried_over w0 w" and "well_formed w"
  shows "carried_over w0 (mutate w m)"
proof -
  from assms(2) have issued: "\<forall>e. valid w e \<longrightarrow> e < nextEntityId w"
    by (simp add: well_formed_def ids_issued_def valid_def)
  have n: "nextEntityId w0 \<le> nextEntityId (mutate w m)"
    using assms(1) mutate_ids(1) [of w m] by (simp add: carried_over_def)
  have a: "valid w0 e \<and> getGroupsForEntity (mutate w m) e = getGroupsForEntity w0 e"
    if "valid (mutate w m) e" "e < nextEntityId w0" for e
  proof -
    from that assms(1) have "e \<noteq> nextEntityId w" by (simp add: carried_over_def)
    with that(1) have v: "valid w e" and ne: "\<forall>x. m = Despawn x \<longrightarrow> e \<noteq> x"
      by (auto simp add: valid_mutate [OF assms(2)] split: mutation.splits)
    from ne have "getGroupsForEntity (mutate w m) e = getGroupsForEntity w e"
      by (auto simp add: groups_of_mutate split: mutation.splits)
    with v that(2) assms(1) show ?thesis by (simp add: carried_over_def)
  qed
  have b: "getGroupsForEntity (mutate w m) e = []"
    if "valid w0 e" "\<not> valid (mutate w m) e" for e
  proof (cases "valid w e")
    case True
    with that(2) have "m = Despawn e"
      by (auto simp add: valid_mutate [OF assms(2)] split: mutation.splits)
    with True show ?thesis by (simp add: getGroupsForEntity_despawn)
  next
    case False
    with that(1) assms(1) have "getGroupsForEntity w e = []" by (simp add: carried_over_def)
    then show ?thesis by (rule getGroupsForEntity_mutate)
  qed
  have c: "map_option g_components (map_of (groupObjs (mutate w m)) g) =
           map_option g_components (map_of (groupObjs w0) g)" for g
    using assms(1) mutate_group_frame(4) [of w m g] by (simp add: carried_over_def)
  from n a b c show ?thesis unfolding carried_over_def by blast
qed

lemma mutate_all_carries:
  "carried_over w0 w \<Longrightarrow> well_formed w \<Longrightarrow>
   carried_over w0 (mutate_all w ms) \<and> well_formed (mutate_all w ms)"
  unfolding mutate_all_def
  by (induction ms arbitrary: w) (simp_all add: carried_over_mutate well_formed_mutate)

subsection \<open>The despawn step of a full revert\<close>

lemma despawn_some_result:
  assumes "well_formed w"
  shows "well_formed (fold (\<lambda>entity w'. if P entity then snd (despawn w' entity) else w') es w) \<and>
         set (entities (fold (\<lambda>entity w'. if P entity then snd (despawn w' entity) else w') es w)) =
           {e \<in> set (entities w). \<not> (P e \<and> e \<in> set es)} \<and>
         (\<forall>e. \<not> (P e \<and> e \<in> set es) \<longrightarrow>
              map_of (components (fold (\<lambda>entity w'. if P entity then snd (despawn w' entity) else w') es w)) e =
              map_of (components w) e)"
  using assms
proof (induction es arbitrary: w)
  case Nil
  then show ?case by simp
next
  case (Cons a es)
  show ?case
  proof (cases "P a")
    case False
    with Cons.IH [OF Cons.prems] show ?thesis by auto
  next
    case True
    let ?w' = "snd (despawn w a)"
    from Cons.prems have wf': "well_formed ?w'" by (rule well_formed_despawn)
    from Cons.prems have "valid w a = Map_has (components w) a"
      by (simp add: well_formed_def tables_match_valid)
    then have ents: "set (entities ?w') = set (entities w) - {a}"
      and comps: "\<And>e. e \<noteq> a \<Longrightarrow> map_of (components ?w') e = map_of (components w) e"
      by (auto simp add: despawn_result valid_def)
    let ?r = "fold (\<lambda>entity w'. if P entity then snd (despawn w' entity) else w') es ?w'"
    from Cons.IH [OF wf'] have
      r1: "well_formed ?r" and
      r2: "set (entities ?r) = {e \<in> set (entities ?w'). \<not> (P e \<and> e \<in> set es)}" and
      r3: "\<And>e. \<not> (P e \<and> e \<in> set es) \<Longrightarrow> map_of (components ?r) e = map_of (components ?w') e"
      by blast+
    have eq: "fold (\<lambda>entity w'. if P entity then snd (despawn w' entity) else w') (a # es) w = ?r"
      using True by simp
    have g2: "set (entities ?r) = {e \<in> set (entities w). \<not> (P e \<and> e \<in> set (a # es))}"
      unfolding r2 ents using True by auto
    have g3: "map_of (components ?r) e = map_of (components w) e" if "\<not> (P e \<and> e \<in> set (a # es))" for e
    proof -
      from that True have "e \<noteq> a" and "\<not> (P e \<and> e \<in> set es)" by auto
      with r3 [of e] comps [of e] show ?thesis by simp
    qed
    from r1 g2 g3 show ?thesis unfolding eq by blast
  qed
qed

subsection \<open>The restore step\<close>

lemma delete_unlisted_lookup:
  "map_of (delete_unlisted t cur) c = (if Map_has t c then map_of cur c else None)"
proof -
  have "map_of (fold (\<lambda>c cur. if \<not> Map_has t c then AList.delete c cur else cur) ks cur) c =
          (if c \<in> set ks \<and> \<not> Map_has t c then None else map_of cur c)" for ks
    by (induction ks arbitrary: cur) (auto simp add: delete_conv')
  from this [of "map fst cur"] show ?thesis
    by (auto simp add: delete_unlisted_def map_of_eq_None_iff)
qed

lemma delete_unlisted_distinct:
  "distinct (map fst cur) \<Longrightarrow> distinct (map fst (delete_unlisted t cur))"
proof -
  have "distinct (map fst cur) \<Longrightarrow>
        distinct (map fst (fold (\<lambda>c cur. if \<not> Map_has t c then AList.delete c cur else cur) ks cur))"
    for ks
    by (induction ks arbitrary: cur) (simp_all add: distinct_delete)
  then show "distinct (map fst cur) \<Longrightarrow> distinct (map fst (delete_unlisted t cur))"
    by (simp add: delete_unlisted_def)
qed

lemma restore_components_distinct:
  "distinct (map fst cur) \<Longrightarrow> distinct (map fst (restore_components s t cur))"
  unfolding restore_components_def
  by (induction t arbitrary: cur) (auto simp add: distinct_update)

lemma restore_components_full:
  "\<not> isPartial s \<Longrightarrow> distinct (map fst t) \<Longrightarrow>
   map_of (restore_components s t cur) c =
     (case map_of t c of Some v \<Rightarrow> Some v | None \<Rightarrow> map_of cur c)"
  unfolding restore_components_def
proof (induction t arbitrary: cur)
  case Nil
  then show ?case by simp
next
  case (Cons p t)
  obtain k v where p: "p = (k, v)" by (cases p)
  from Cons.prems p have "map_of t k = None" by (simp add: map_of_eq_None_iff)
  with Cons.IH [of "AList.update k (deepClone v) cur"] Cons.prems p show ?case
    by (auto simp add: update_conv' deepClone_def split: option.splits)
qed

lemma restored_table_distinct:
  "tables_distinct w \<Longrightarrow> distinct (map fst (restored_table s entry w))"
  unfolding restored_table_def Let_def
  by (auto intro!: restore_components_distinct delete_unlisted_distinct
      dest: tables_distinct_table split: option.splits)

lemma restore_entity_Continue:
  assumes "tables_match w"
  shows "restore_entity s entry w =
           Continue (if fst entry \<notin> set (entities w) \<and> snd entry = [] then w
                     else w\<lparr>entities := Set_add (fst entry) (entities w),
                            components := AList.update (fst entry) (restored_table s entry w)
                                            (components w)\<rparr>)"
proof (cases "fst entry \<in> set (entities w)")
  case True
  with assms obtain cur where cur: "map_of (components w) (fst entry) = Some cur"
    using tables_match_valid [of w "fst entry"] by (auto simp add: valid_def Map_has_def)
  from True have "w\<lparr>entities := Set_add (fst entry) (entities w)\<rparr> = w"
    by (simp add: Set_add_def)
  with True cur show ?thesis
    by (simp add: restore_entity_def restored_table_def Let_def Set_add_def)
next
  case False
  then show ?thesis
    by (simp add: restore_entity_def restored_table_def Let_def update_conv')
qed

lemma restore_entity_well_formed:
  assumes "tables_match w" and "tables_distinct w"
  shows "\<exists>w'. restore_entity s entry w = Continue w' \<and> tables_match w' \<and> tables_distinct w' \<and>
           set (entities w') = set (entities w) \<union> (if snd entry \<noteq> [] then {fst entry} else {}) \<and>
           (\<forall>e. e \<noteq> fst entry \<longrightarrow> map_of (components w') e = map_of (components w) e) \<and>
           (valid w' (fst entry) \<longrightarrow>
              map_of (components w') (fst entry) = Some (restored_table s entry w))"
proof (cases "fst entry \<notin> set (entities w) \<and> snd entry = []")
  case True
  with restore_entity_Continue [OF assms(1), of s entry]
  have "restore_entity s entry w = Continue w" by simp
  moreover from True have "\<not> valid w (fst entry)" by (simp add: valid_def)
  moreover from True have "set (entities w) = set (entities w) \<union> (if snd entry \<noteq> [] then {fst entry} else {})"
    by simp
  ultimately show ?thesis using assms by blast
next
  case False
  let ?w' = "w\<lparr>entities := Set_add (fst entry) (entities w),
                components := AList.update (fst entry) (restored_table s entry w) (components w)\<rparr>"
  from False restore_entity_Continue [OF assms(1), of s entry]
  have step: "restore_entity s entry w = Continue ?w'" by auto
  from assms(1) have tm: "tables_match ?w'"
    by (auto simp add: tables_match_def Set_add_def dom_update)
  have td: "tables_distinct ?w'"
    by (rule tables_distinct_update [OF assms(2) restored_table_distinct [OF assms(2)]]) simp
  from False have ents: "set (entities ?w') = set (entities w) \<union> (if snd entry \<noteq> [] then {fst entry} else {})"
    by (auto simp add: Set_add_def)
  have comps: "\<forall>e. e \<noteq> fst entry \<longrightarrow> map_of (components ?w') e = map_of (components w) e"
    by (simp add: update_conv')
  have tab: "map_of (components ?w') (fst entry) = Some (restored_table s entry w)"
    by (simp add: update_conv')
  from step tm td ents comps tab show ?thesis by blast
qed

lemma restored_table_full:
  assumes "\<not> isPartial s" and "distinct (map fst (snd entry))"
  shows "map_of (restored_table s entry w) c = map_of (snd entry) c"
  using assms
  by (simp add: restored_table_def Let_def restore_components_full delete_unlisted_lookup Map_has_def
      split: option.splits)

lemma restore_entities_well_formed:
  assumes "tables_match w" and "tables_distinct w"
  shows "tables_match (restore_entities s es w) \<and> tables_distinct (restore_entities s es w)"
  using assms
proof (induction es arbitrary: w)
  case Nil
  then show ?case by simp
next
  case (Cons entry es)
  from restore_entity_well_formed [OF Cons.prems, of s entry]
  obtain w' where "restore_entity s entry w = Continue w'" "tables_match w'" "tables_distinct w'"
    by blast
  with Cons.IH [of w'] show ?case by simp
qed

lemma restore_entities_full:
  assumes "\<not> isPartial s"
    and "distinct (map fst es)"
    and "\<forall>(e, t) \<in> set es. distinct (map fst t)"
    and "tables_match w" and "tables_distinct w"
  shows "set (entities (restore_entities s es w)) =
           set (entities w) \<union> {e. \<exists>t. (e, t) \<in> set es \<and> t \<noteq> []} \<and>
         (\<forall>e. e \<notin> fst ` set es \<longrightarrow>
              map_of (components (restore_entities s es w)) e = map_of (components w) e) \<and>
         (\<forall>(e, t) \<in> set es. valid (restore_entities s es w) e \<longrightarrow>
              (\<forall>c. own (restore_entities s es w) e c = map_of t c))"
  using assms(2-)
proof (induction es arbitrary: w)
  case Nil
  then show ?case by simp
next
  case (Cons entry es)
  obtain e t where entry: "entry = (e, t)" by (cases entry)
  from restore_entity_well_formed [OF Cons.prems(3,4), of s entry]
  obtain w' where step: "restore_entity s entry w = Continue w'"
    and tm: "tables_match w'" and td: "tables_distinct w'"
    and ents: "set (entities w') = set (entities w) \<union> (if t \<noteq> [] then {e} else {})"
    and comps: "\<And>x. x \<noteq> e \<Longrightarrow> map_of (components w') x = map_of (components w) x"
    and tab: "valid w' e \<Longrightarrow> map_of (components w') e = Some (restored_table s entry w)"
    unfolding entry by auto
  let ?r = "restore_entities s es w'"
  from Cons.prems entry have d: "distinct (map fst es)" and dt: "\<forall>(e, t) \<in> set es. distinct (map fst t)"
    and fresh: "e \<notin> fst ` set es" and distinct_t: "distinct (map fst t)"
    by auto
  from Cons.IH [OF d dt tm td] have
    r1: "set (entities ?r) = set (entities w') \<union> {e. \<exists>t. (e, t) \<in> set es \<and> t \<noteq> []}" and
    r2: "\<And>x. x \<notin> fst ` set es \<Longrightarrow> map_of (components ?r) x = map_of (components w') x" and
    r3: "\<forall>(e, t) \<in> set es. valid ?r e \<longrightarrow> (\<forall>c. own ?r e c = map_of t c)"
    by blast+
  have eq: "restore_entities s (entry # es) w = ?r" using step by simp
  have g1: "set (entities ?r) = set (entities w) \<union> {x. \<exists>t'. (x, t') \<in> set (entry # es) \<and> t' \<noteq> []}"
    unfolding r1 ents entry by auto
  have g2: "\<forall>x. x \<notin> fst ` set (entry # es) \<longrightarrow> map_of (components ?r) x = map_of (components w) x"
    using r2 comps entry by auto
  have head: "\<forall>c. own ?r e c = map_of t c" if "valid ?r e"
  proof -
    from that fresh r1 have "valid w' e" by (force simp add: valid_def)
    from tab [OF this] r2 [OF fresh] have "map_of (components ?r) e = Some (restored_table s entry w)"
      by simp
    then show ?thesis
      using restored_table_full [OF assms(1), of entry w] distinct_t entry
      by (simp add: own_def)
  qed
  with r3 have g3: "\<forall>(x, t') \<in> set (entry # es). valid ?r x \<longrightarrow> (\<forall>c. own ?r x c = map_of t' c)"
    unfolding entry by auto
  from g1 g2 g3 show ?case unfolding eq by blast
qed

subsection \<open>Reading through the group overlay\<close>

lemma get_overlay:
  "get w e c =
     (if \<not> valid w e then None
      else case own w e c of
             Some v \<Rightarrow> Some v
           | None \<Rightarrow> (case first_group_with w c (getGroupsForEntity w e) of
                        None \<Rightarrow> None
                      | Some g \<Rightarrow> group_get w g c))"
  by (auto simp add: get_def own_def getGroupsForEntity_def Map_has_def first_group_with_def
      split: option.splits)

lemma has_overlay:
  "has w e c =
     (valid w e \<and> (own w e c \<noteq> None \<or> first_group_with w c (getGroupsForEntity w e) \<noteq> None))"
  by (auto simp add: has_def own_def getGroupsForEntity_def Map_has_def first_group_with_def
      split: option.splits)

lemma first_group_with_cong:
  assumes "\<And>g. map_option g_components (map_of (groupObjs w') g) =
                map_option g_components (map_of (groupObjs w) g)"
  shows "first_group_with w' c gs = first_group_with w c gs"
  unfolding first_group_with_def
  by (rule find_cong) (simp_all add: group_has_cong [OF assms])

lemma overlay_cong:
  assumes "valid w' e = valid w e"
    and "own w' e c = own w e c"
    and "getGroupsForEntity w' e = getGroupsForEntity w e"
    and "\<And>g. map_option g_components (map_of (groupObjs w') g) =
                map_option g_components (map_of (groupObjs w) g)"
  shows "get w' e c = get w e c \<and> has w' e c = has w e c"
  unfolding get_overlay has_overlay
  using assms(1-3) first_group_with_cong [of w' w c, OF assms(4)] group_get_cong [of w' _ w c, OF assms(4)]
  by (simp split: option.splits)

subsection \<open>Reverting twice\<close>

lemma despawn_none:
  "\<forall>e \<in> set es. \<not> P e \<Longrightarrow>
   fold (\<lambda>entity w'. if P entity then snd (despawn w' entity) else w') es w = w"
  by (induction es) simp_all

lemma delete_unlisted_same:
  assumes "\<forall>k \<in> fst ` set cur. Map_has t k"
  shows "delete_unlisted t cur = cur"
proof -
  have "\<forall>k \<in> set ks. Map_has t k \<Longrightarrow>
        fold (\<lambda>c cur. if \<not> Map_has t c then AList.delete c cur else cur) ks cur = cur" for ks
    by (induction ks) simp_all
  from this [of "map fst cur"] assms show ?thesis by (simp add: delete_unlisted_def)
qed

lemma restore_components_same:
  "\<forall>(c, v) \<in> set t. map_of cur c = Some v \<Longrightarrow> restore_components s t cur = cur"
  unfolding restore_components_def
  by (induction t) (auto simp add: update_triv deepClone_def)

lemma restored_table_same:
  assumes "e \<in> set (entities w)" and "map_of (components w) e = Some cur"
    and "map_of cur = map_of t" and "distinct (map fst t)"
  shows "restored_table s (e, t) w = cur"
proof -
  have "Map_has t k" if "k \<in> fst ` set cur" for k
    using that assms(3) by (metis Map_has_def map_of_eq_None_iff)
  then have a: "delete_unlisted t cur = cur" by (simp add: delete_unlisted_same)
  have "\<forall>(c, v) \<in> set t. map_of cur c = Some v"
    using assms(3,4) by auto
  then have b: "restore_components s t cur = cur" by (rule restore_components_same)
  from assms(1,2) a b show ?thesis by (simp add: restored_table_def Let_def)
qed

lemma restore_entities_same:
  assumes "tables_match w"
    and "\<forall>(e, t) \<in> set es. distinct (map fst t) \<and>
           (if valid w e then \<exists>cur. map_of (components w) e = Some cur \<and> map_of cur = map_of t
            else t = [])"
  shows "restore_entities s es w = w"
  using assms(2)
proof (induction es)
  case Nil
  then show ?case by simp
next
  case (Cons entry es)
  obtain e t where entry: "entry = (e, t)" by (cases entry)
  have "restore_entity s entry w = Continue w"
  proof (cases "valid w e")
    case True
    with Cons.prems entry obtain cur where cur: "map_of (components w) e = Some cur"
      and same: "map_of cur = map_of t" and dt: "distinct (map fst t)" by auto
    from True have live: "e \<in> set (entities w)" by (simp add: valid_def)
    from restored_table_same [OF live cur same dt] have "restored_table s entry w = cur"
      by (simp add: entry)
    with live cur restore_entity_Continue [OF assms(1), of s entry] show ?thesis
      by (simp add: entry Set_add_def update_triv)
  next
    case False
    with Cons.prems entry have "t = []" by auto
    with False restore_entity_Continue [OF assms(1), of s entry] show ?thesis
      by (simp add: entry valid_def)
  qed
  moreover from Cons.prems have "\<forall>(e, t) \<in> set es. distinct (map fst t) \<and>
           (if valid w e then \<exists>cur. map_of (components w) e = Some cur \<and> map_of cur = map_of t
            else t = [])" by simp
  ultimately show ?case using Cons.IH by simp
qed

lemma nonempty_table: "t \<noteq> [] \<longleftrightarrow> (\<exists>c. map_of t c \<noteq> None)"
  by (cases t) auto

subsection \<open>Reverting a full snapshot\<close>

lemma full_revert_facts:
  assumes wf0: "well_formed w0"
    and snap: "snapshot w0 idc clk None = Inr (Some S0)"
    and wfw: "well_formed w"
  shows "set (entities (revert S0 w)) =
           {e \<in> set (entities w). valid w0 e} \<union>
           {e. valid w0 e \<and> (\<exists>c. own w0 e c \<noteq> None)}"
    and "valid (revert S0 w) e \<Longrightarrow> own (revert S0 w) e c = own w0 e c"
    and "tables_match (revert S0 w)"
    and "valid w0 e \<Longrightarrow> getGroupsForEntity (revert S0 w) e = getGroupsForEntity w e"
    and "getGroupsForEntity (revert S0 w) e = [] \<or>
         getGroupsForEntity (revert S0 w) e = getGroupsForEntity w e"
    and "map_option g_components (map_of (groupObjs (revert S0 w)) g) =
         map_option g_components (map_of (groupObjs w) g)"
    and "(x, t) \<in> set (entityStates S0) \<Longrightarrow>
           distinct (map fst t) \<and> valid w0 x \<and> map_of (components w0) x = Some t"
    and "Map_has (entityStates S0) x = valid w0 x"
    and "\<not> isPartial S0"
proof -
  from wf0 have tm0: "tables_match w0" and td0: "tables_distinct w0"
    by (simp_all add: well_formed_def)
  note S = full_snapshot_states [OF tm0 td0 snap]
  from S(1) have np: "\<not> isPartial S0" by (simp add: isPartial_def)
  have listed: "Map_has (entityStates S0) x = valid w0 x" for x
    using S(3) [of x] tables_match_valid [OF tm0, of x] by (simp add: Map_has_def)
  have entry: "(x, t) \<in> set (entityStates S0) \<longleftrightarrow> valid w0 x \<and> map_of (components w0) x = Some t"
    for x t
    using S(2) S(3) [of x] by (auto split: if_splits)
  let ?P = "\<lambda>x. \<not> Map_has (entityStates S0) x"
  let ?w2 = "despawn_unlisted S0 w"
  from despawn_some_result [OF wfw, of ?P "entities w"] have
    wf2: "well_formed ?w2" and
    ents2: "set (entities ?w2) = {e \<in> set (entities w). valid w0 e}" and
    comps2: "\<And>x. valid w0 x \<Longrightarrow> map_of (components ?w2) x = map_of (components w) x"
    unfolding despawn_unlisted_def by (auto simp add: listed)
  from wf2 have tm2: "tables_match ?w2" and td2: "tables_distinct ?w2"
    by (simp_all add: well_formed_def)
  have rev: "revert S0 w = restore_entities S0 (entityStates S0) ?w2"
    using np by (simp add: revert_def Let_def)
  have dt: "\<forall>(e, t) \<in> set (entityStates S0). distinct (map fst t)"
    using S(4) by blast
  from restore_entities_full [OF np S(2) dt tm2 td2] have
    ents1: "set (entities (revert S0 w)) =
              set (entities ?w2) \<union> {e. \<exists>t. (e, t) \<in> set (entityStates S0) \<and> t \<noteq> []}" and
    own1: "\<And>x t. (x, t) \<in> set (entityStates S0) \<Longrightarrow> valid (revert S0 w) x \<Longrightarrow>
                 (\<forall>c. own (revert S0 w) x c = map_of t c)"
    unfolding rev by blast+
  have ne: "(\<exists>t. (x, t) \<in> set (entityStates S0) \<and> t \<noteq> []) \<longleftrightarrow>
            valid w0 x \<and> (\<exists>c. own w0 x c \<noteq> None)" for x
  proof (cases "valid w0 x")
    case True
    with tm0 obtain t where t: "map_of (components w0) x = Some t"
      using tables_match_valid [OF tm0, of x] by (auto simp add: Map_has_def)
    with True have "(\<exists>t'. (x, t') \<in> set (entityStates S0) \<and> t' \<noteq> []) \<longleftrightarrow> t \<noteq> []"
      by (auto simp add: entry)
    with True t show ?thesis by (simp add: own_def nonempty_table)
  next
    case False
    then show ?thesis by (simp add: entry)
  qed
  show "set (entities (revert S0 w)) =
           {e \<in> set (entities w). valid w0 e} \<union>
           {e. valid w0 e \<and> (\<exists>c. own w0 e c \<noteq> None)}"
    unfolding ents1 ents2 using ne by blast
  then have v0: "valid w0 x" if "valid (revert S0 w) x" for x
    using that by (auto simp add: valid_def)
  show "own (revert S0 w) e c = own w0 e c" if "valid (revert S0 w) e"
  proof -
    from v0 [OF that] tm0 obtain t where t: "map_of (components w0) e = Some t"
      using tables_match_valid [OF tm0, of e] by (auto simp add: Map_has_def)
    with v0 [OF that] have "(e, t) \<in> set (entityStates S0)" by (simp add: entry)
    from own1 [OF this that] t show ?thesis by (simp add: own_def)
  qed
  show "tables_match (revert S0 w)"
    unfolding rev using restore_entities_well_formed [OF tm2 td2] by blast
  show "getGroupsForEntity (revert S0 w) e = getGroupsForEntity w e" if "valid w0 e"
  proof -
    have "getGroupsForEntity (revert S0 w) e = getGroupsForEntity ?w2 e"
      unfolding rev by (simp add: getGroupsForEntity_def)
    also have "\<dots> = getGroupsForEntity w e"
      unfolding despawn_unlisted_def
      by (rule despawn_some_groups_of_kept) (simp add: listed that)
    finally show ?thesis .
  qed
  show "getGroupsForEntity (revert S0 w) e = [] \<or>
        getGroupsForEntity (revert S0 w) e = getGroupsForEntity w e"
  proof -
    have "getGroupsForEntity (revert S0 w) e = getGroupsForEntity ?w2 e"
      unfolding rev by (simp add: getGroupsForEntity_def)
    with despawn_some_groups_of [of ?P "entities w" w e] show ?thesis
      by (simp add: despawn_unlisted_def)
  qed
  show "map_option g_components (map_of (groupObjs (revert S0 w)) g) =
        map_option g_components (map_of (groupObjs w) g)"
    unfolding rev by (simp add: despawn_unlisted_def despawn_some_frame)
  show "distinct (map fst t) \<and> valid w0 x \<and> map_of (components w0) x = Some t"
    if "(x, t) \<in> set (entityStates S0)"
    using that S(4) [OF that] by (simp add: entry)
  show "Map_has (entityStates S0) x = valid w0 x" by (rule listed)
  show "\<not> isPartial S0" by (rule np)
qed

text \<open>
  C3 as stated (after any spawn/despawn/set/remove calls, reverting a full snapshot
  restores \<open>valid\<close>, \<open>has\<close> and \<open>get\<close> of every entity and component) fails. An entity
  captured with an empty table and despawned since is skipped by \<open>revert\<close> and stays
  dead; and \<open>despawn\<close> detaches an entity from its groups, which \<open>revert\<close> does not
  undo, so a value that was read through a group is absent after the entity is
  re-created.
\<close>

theorem full_revert_does_not_restore_everything:
  "snapshot lone_world 1 0 None = Inr (Some lone_snapshot) \<and>
   valid lone_world 1 \<and>
   \<not> valid (revert lone_snapshot (mutate_all lone_world [Despawn 1])) 1 \<and>
   snapshot team_world 1 0 None = Inr (Some team_snapshot) \<and>
   get team_world 1 7 = Some ''red'' \<and>
   get (revert team_snapshot (mutate_all team_world [Despawn 1])) 1 7 = None"
  by code_simp

text \<open>
  C3, amended. Let \<open>S0\<close> be the full snapshot of a well-formed world \<open>w0\<close>, and let any
  spawn/despawn/set/remove calls follow. After \<open>revert(S0)\<close>: an entity is live exactly
  when it was live at capture and is either still live before the revert or was
  captured with a non-empty table; every live entity has its own table as it was at
  capture; for an entity that was live at capture and is still live before the revert,
  \<open>get\<close> and \<open>has\<close> answer as at capture, group overlay included; an entity re-created
  by the revert has \<open>get\<close> and \<open>has\<close> answer from its captured own table alone; an entity
  that was not live at capture is not live, with \<open>get\<close> absent and \<open>has\<close> false, as at
  capture; and a second \<open>revert(S0)\<close> leaves the world exactly as the first one did.
\<close>

theorem full_revert_round_trip:
  assumes "well_formed w0" and "snapshot w0 idc clk None = Inr (Some S0)"
  shows "(\<forall>e. valid (revert S0 (mutate_all w0 ms)) e \<longleftrightarrow>
              valid w0 e \<and> (valid (mutate_all w0 ms) e \<or> (\<exists>c. own w0 e c \<noteq> None))) \<and>
         (\<forall>e c. valid (revert S0 (mutate_all w0 ms)) e \<longrightarrow>
              own (revert S0 (mutate_all w0 ms)) e c = own w0 e c) \<and>
         (\<forall>e c. valid w0 e \<and> valid (mutate_all w0 ms) e \<longrightarrow>
              get (revert S0 (mutate_all w0 ms)) e c = get w0 e c \<and>
              has (revert S0 (mutate_all w0 ms)) e c = has w0 e c) \<and>
         (\<forall>e c. valid w0 e \<and> \<not> valid (mutate_all w0 ms) e \<and>
                valid (revert S0 (mutate_all w0 ms)) e \<longrightarrow>
              get (revert S0 (mutate_all w0 ms)) e c = own w0 e c \<and>
              has (revert S0 (mutate_all w0 ms)) e c = (own w0 e c \<noteq> None)) \<and>
         (\<forall>e c. \<not> valid w0 e \<longrightarrow>
              \<not> valid (revert S0 (mutate_all w0 ms)) e \<and>
              get (revert S0 (mutate_all w0 ms)) e c = None \<and>
              \<not> has (revert S0 (mutate_all w0 ms)) e c) \<and>
         revert S0 (revert S0 (mutate_all w0 ms)) = revert S0 (mutate_all w0 ms)"
proof -
  let ?w = "mutate_all w0 ms"
  let ?w1 = "revert S0 ?w"
  from mutate_all_carries [OF carried_over_refl assms(1), of ms]
  have co: "carried_over w0 ?w" and wfw: "well_formed ?w" by simp_all
  note F = full_revert_facts [OF assms wfw]
  from assms(1) have issued: "\<And>e. valid w0 e \<Longrightarrow> e < nextEntityId w0"
    by (simp add: well_formed_def ids_issued_def valid_def)
  have v: "valid ?w1 e \<longleftrightarrow> valid w0 e \<and> (valid ?w e \<or> (\<exists>c. own w0 e c \<noteq> None))" for e
    using F(1) by (auto simp add: valid_def)
  have o: "own ?w1 e c = own w0 e c" if "valid ?w1 e" for e c
    using F(2) [OF that] .
  have tables: "map_option g_components (map_of (groupObjs ?w1) g) =
                map_option g_components (map_of (groupObjs w0) g)" for g
    using F(6) [of g] co by (simp add: carried_over_def)
  have kept: "get ?w1 e c = get w0 e c \<and> has ?w1 e c = has w0 e c"
    if "valid w0 e" "valid ?w e" for e c
  proof (rule overlay_cong)
    from that show "valid ?w1 e = valid w0 e" by (simp add: v)
    from that show "own ?w1 e c = own w0 e c" by (simp add: o v)
    from that co issued [OF that(1)] have "getGroupsForEntity ?w e = getGroupsForEntity w0 e"
      by (simp add: carried_over_def)
    with F(4) [OF that(1)] show "getGroupsForEntity ?w1 e = getGroupsForEntity w0 e" by simp
    show "\<And>g. map_option g_components (map_of (groupObjs ?w1) g) =
              map_option g_components (map_of (groupObjs w0) g)" by (rule tables)
  qed
  have recreated: "get ?w1 e c = own w0 e c \<and> has ?w1 e c = (own w0 e c \<noteq> None)"
    if "valid w0 e" "\<not> valid ?w e" "valid ?w1 e" for e c
  proof -
    from that co have "getGroupsForEntity ?w e = []" by (simp add: carried_over_def)
    with F(5) [of e] have "getGroupsForEntity ?w1 e = []" by auto
    with that(3) o [OF that(3), of c] show ?thesis
      by (simp add: get_overlay has_overlay first_group_with_def split: option.splits)
  qed
  have dead: "\<not> valid ?w1 e \<and> get ?w1 e c = None \<and> \<not> has ?w1 e c" if "\<not> valid w0 e" for e c
    using that by (simp add: v get_overlay has_overlay)
  have twice: "revert S0 ?w1 = ?w1"
  proof -
    have "\<forall>e \<in> set (entities ?w1). \<not> \<not> Map_has (entityStates S0) e"
      using v by (simp add: F(8) valid_def)
    then have a: "despawn_unlisted S0 ?w1 = ?w1"
      unfolding despawn_unlisted_def by (rule despawn_none)
    have b: "restore_entities S0 (entityStates S0) ?w1 = ?w1"
    proof (rule restore_entities_same [OF F(3)], clarify)
      fix x t assume xt: "(x, t) \<in> set (entityStates S0)"
      from F(7) [OF xt] have dt: "distinct (map fst t)" and vx: "valid w0 x"
        and t0: "map_of (components w0) x = Some t" by simp_all
      have "if valid ?w1 x then \<exists>cur. map_of (components ?w1) x = Some cur \<and> map_of cur = map_of t
            else t = []"
      proof (cases "valid ?w1 x")
        case True
        with F(3) obtain cur where cur: "map_of (components ?w1) x = Some cur"
          using tables_match_valid [OF F(3), of x] by (auto simp add: Map_has_def)
        have "map_of cur c = map_of t c" for c
          using o [OF True, of c] cur t0 by (simp add: own_def)
        then have "map_of cur = map_of t" by (rule ext)
        with True cur show ?thesis by simp
      next
        case False
        with vx have "\<forall>c. own w0 x c = None" by (simp add: v)
        with t0 have "\<forall>c. map_of t c = None" by (simp add: own_def)
        with nonempty_table [of t] have "t = []" by simp
        with False show ?thesis by simp
      qed
      with dt show "distinct (map fst t) \<and>
           (if valid ?w1 x then \<exists>cur. map_of (components ?w1) x = Some cur \<and> map_of cur = map_of t
            else t = [])" by simp
    qed
    from a b F(9) show ?thesis by (simp add: revert_def Let_def)
  qed
  from v o kept recreated dead twice show ?thesis by blast
qed

subsection \<open>Every reachable world is well formed\<close>

lemma revert_tables:
  assumes "well_formed w"
  shows "tables_match (revert S w) \<and> tables_distinct (revert S w)"
proof (cases "isPartial S")
  case True
  with assms restore_entities_well_formed [of w S "entityStates S"] show ?thesis
    by (simp add: revert_def Let_def well_formed_def)
next
  case False
  from despawn_some_result [OF assms, of "\<lambda>x. \<not> Map_has (entityStates S) x" "entities w"]
  have "well_formed (despawn_unlisted S w)" by (simp add: despawn_unlisted_def)
  with False restore_entities_well_formed [of "despawn_unlisted S w" S "entityStates S"]
  show ?thesis by (simp add: revert_def Let_def well_formed_def)
qed

lemma tables_cong:
  "entities w' = entities w \<Longrightarrow> components w' = components w \<Longrightarrow>
   tables_match w' = tables_match w \<and> tables_distinct w' = tables_distinct w"
  by (simp add: tables_match_def tables_distinct_def)

lemma group_calls_keep_tables:
  "entities (snd (createGroup w)) = entities w \<and> components (snd (createGroup w)) = components w"
  "entities (removeGroup w g) = entities w \<and> components (removeGroup w g) = components w"
  "entities (group_set w g c v) = entities w \<and> components (group_set w g c v) = components w"
  "entities (snd (group_remove w g c)) = entities w \<and> components (snd (group_remove w g c)) = components w"
  by (simp_all add: createGroup_def removeGroup_def group_set_def group_remove_def Let_def
      split: option.splits)

lemma tables_perform:
  assumes "session_ok s" and "tables_match (world s)" and "tables_distinct (world s)"
  shows "tables_match (world (perform s op)) \<and> tables_distinct (world (perform s op))"
proof -
  from assms have wf: "well_formed (world s)" by (simp add: well_formed_def session_ok_def)
  show ?thesis
  proof (cases op)
    case (Mutate m)
    with well_formed_mutate [OF wf, of m] show ?thesis by (simp add: well_formed_def)
  next
    case (TakeSnapshot filt clk)
    with assms show ?thesis by (simp split: sum.splits option.splits)
  next
    case (Revert k)
    with assms revert_tables [OF wf] show ?thesis by simp
  next
    case CreateGroup
    with assms tables_cong [OF group_calls_keep_tables(1) [THEN conjunct1] group_calls_keep_tables(1) [THEN conjunct2], of "world s"]
    show ?thesis by simp
  next
    case (RemoveGroup g)
    with assms tables_cong [OF group_calls_keep_tables(2) [THEN conjunct1] group_calls_keep_tables(2) [THEN conjunct2], of "world s" g]
    show ?thesis by simp
  next
    case (AddEntity g e)
    with assms tables_cong [of "addEntity (world s) g e" "world s"] show ?thesis by simp
  next
    case (RemoveEntity g e)
    with assms tables_cong [of "removeEntity (world s) g e" "world s"] show ?thesis by simp
  next
    case (GroupSet g c v)
    with assms tables_cong [OF group_calls_keep_tables(3) [THEN conjunct1] group_calls_keep_tables(3) [THEN conjunct2], of "world s" g c v]
    show ?thesis by simp
  next
    case (GroupRemove g c)
    with assms tables_cong [OF group_calls_keep_tables(4) [THEN conjunct1] group_calls_keep_tables(4) [THEN conjunct2], of "world s" g c]
    show ?thesis by simp
  next
    case (ClearAdded g)
    with assms tables_cong [of "clear_onEntityAdded (world s) g" "world s"] show ?thesis by simp
  next
    case (ClearRemoved g)
    with assms tables_cong [of "clear_onEntityRemoved (world s) g" "world s"] show ?thesis by simp
  next
    case (ObserveAdded g n)
    with assms tables_cong [of "observe_onEntityAdded (world s) g n" "world s"]
    show ?thesis by simp
  next
    case (ObserveRemoved g n)
    with assms tables_cong [of "observe_onEntityRemoved (world s) g n" "world s"]
    show ?thesis by simp
  next
    case (FireAdded g e)
    with assms tables_cong [of "fire_onEntityAdded (world s) g e" "world s"] show ?thesis by simp
  next
    case (FireRemoved g e)
    with assms tables_cong [of "fire_onEntityRemoved (world s) g e" "world s"] show ?thesis by simp
  qed
qed

lemma reachable_well_formed: "well_formed (world (perform_all new_session ops))"
proof -
  have "session_ok s \<and> tables_match (world s) \<and> tables_distinct (world s) \<Longrightarrow>
        session_ok (fold (\<lambda>op s'. perform s' op) ops s) \<and>
        tables_match (world (fold (\<lambda>op s'. perform s' op) ops s)) \<and>
        tables_distinct (world (fold (\<lambda>op s'. perform s' op) ops s))" for s :: "'a session"
  proof (induction ops arbitrary: s)
    case Nil
    then show ?case by simp
  next
    case (Cons op ops)
    from Cons.prems tables_perform [of s op] session_ok_perform [of s op]
    have "session_ok (perform s op) \<and> tables_match (world (perform s op)) \<and>
          tables_distinct (world (perform s op))" by simp
    from Cons.IH [OF this] show ?case by simp
  qed
  moreover have "tables_match (world (new_session :: 'a session))"
    "tables_distinct (world (new_session :: 'a session))"
    by (simp_all add: tables_match_def tables_distinct_def new_session_def createWorld_def)
  ultimately have "session_ok (perform_all (new_session :: 'a session) ops) \<and>
        tables_match (world (perform_all (new_session :: 'a session) ops)) \<and>
        tables_distinct (world (perform_all (new_session :: 'a session) ops))"
    unfolding perform_all_def using session_ok_new by blast
  then show ?thesis by (simp add: well_formed_def session_ok_def)
qed

theorem full_revert_round_trip_witness:
  "well_formed team_world \<and>
   snapshot team_world 1 0 None = Inr (Some team_snapshot) \<and>
   valid (revert team_snapshot (mutate_all team_world shuffle)) 1 \<and>
   \<not> valid (revert team_snapshot (mutate_all team_world shuffle)) 2 \<and>
   get (revert team_snapshot (mutate_all team_world shuffle)) 1 3 = Some ''hp'' \<and>
   get (revert team_snapshot (mutate_all team_world shuffle)) 1 7 = Some ''red'' \<and>
   get (revert team_snapshot (mutate_all team_world [Despawn 1])) 1 3 = Some ''hp'' \<and>
   revert team_snapshot (revert team_snapshot (mutate_all team_world shuffle)) =
     revert team_snapshot (mutate_all team_world shuffle)"
proof -
  have wf: "well_formed team_world"
    by code_simp
  have snap: "snapshot team_world 1 0 None = Inr (Some team_snapshot)"
    by code_simp
  have at_capture: "valid team_world 1" "\<not> valid team_world 2" "own team_world 1 3 = Some ''hp''"
    "get team_world 1 3 = Some ''hp''" "get team_world 1 7 = Some ''red''"
    by code_simp+
  have later: "valid (mutate_all team_world shuffle) 1" "\<not> valid (mutate_all team_world [Despawn 1]) 1"
    by code_simp+
  note rt = full_revert_round_trip [OF wf snap, of shuffle]
  note rt' = full_revert_round_trip [OF wf snap, of "[Despawn 1]"]
  note lives = rt [THEN conjunct1]
  note kept = rt [THEN conjunct2, THEN conjunct2, THEN conjunct1]
  note twice = rt [THEN conjunct2, THEN conjunct2, THEN conjunct2, THEN conjunct2, THEN conjunct2]
  note lives' = rt' [THEN conjunct1]
  note recreated = rt' [THEN conjunct2, THEN conjunct2, THEN conjunct2, THEN conjunct1]
  from lives at_capture later have a: "valid (revert team_snapshot (mutate_all team_world shuffle)) 1"
    "\<not> valid (revert team_snapshot (mutate_all team_world shuffle)) 2"
    by simp_all
  from kept at_capture later have b:
    "get (revert team_snapshot (mutate_all team_world shuffle)) 1 3 = Some ''hp''"
    "get (revert team_snapshot (mutate_all team_world shuffle)) 1 7 = Some ''red''"
    by simp_all
  from lives' at_capture have "valid (revert team_snapshot (mutate_all team_world [Despawn 1])) 1"
    by auto
  with recreated at_capture later
  have c: "get (revert team_snapshot (mutate_all team_world [Despawn 1])) 1 3 = Some ''hp''"
    by simp
  from wf snap a b c twice show ?thesis by blast
qed

subsection \<open>Delivery of an event\<close>

declare forEach.simps [simp del]

text \<open>The operations of an event keep the ids increasing and below the counter.\<close>

lemma event_ok_new: "event_ok new_Event"
  by (simp add: event_ok_def connection_ids_def new_Event_def)

lemma update_fresh: "k \<notin> fst ` set al \<Longrightarrow> AList.update k v al = al @ [(k, v)]"
  by (induction al) auto

lemma connect_fresh:
  "event_ok ev \<Longrightarrow> connections (snd (connect ev cb)) = connections ev @ [(nextId ev, cb)]"
  by (auto simp add: connect_def Let_def event_ok_def connection_ids_def intro!: update_fresh)

lemma event_ok_connect: "event_ok ev \<Longrightarrow> event_ok (snd (connect ev cb))"
  using connect_fresh [of ev cb]
  by (auto simp add: event_ok_def connection_ids_def sorted_wrt_append connect_def Let_def less_Suc_eq)






lemma lookup_connect:
  "lookup (snd (connect ev cb)) x = (if x = nextId ev then Some cb else lookup ev x)"
  by (simp add: lookup_def connect_def Let_def update_conv')


lemma nextId_simps [simp]:
  "nextId (Disconnect k ev) = nextId ev"
  "nextId (disconnectAll ev) = nextId ev"
  "nextId (snd (connect ev cb)) = Suc (nextId ev)"
  by (simp_all add: Disconnect_def disconnectAll_def connect_def Let_def)


lemma find_first_sorted:
  fixes xs :: "(nat \<times> 'b) list"
  shows "sorted_wrt (<) (map fst xs) \<Longrightarrow> find P xs = Some (c, cb) \<Longrightarrow>
     map_of xs c = Some cb \<and> P (c, cb) \<and> (\<forall>(k, v) \<in> set xs. P (k, v) \<longrightarrow> c \<le> k)"
proof (induction xs)
  case Nil
  then show ?case by simp
next
  case (Cons x xs)
  obtain k v where x: "x = (k, v)" by (cases x)
  show ?case
  proof (cases "P x")
    case True
    with Cons.prems x have eq: "c = k" "cb = v" and lt: "\<forall>y \<in> set xs. k < fst y" by auto
    from lt have "\<forall>(k', v') \<in> set xs. k \<le> k'" by (auto simp add: less_imp_le)
    with True x eq show ?thesis by auto
  next
    case False
    with Cons.prems have f: "find P xs = Some (c, cb)" and s: "sorted_wrt (<) (map fst xs)"
      by simp_all
    from Cons.IH [OF s f] have ih: "map_of xs c = Some cb" "P (c, cb)"
      "\<forall>(k, v) \<in> set xs. P (k, v) \<longrightarrow> c \<le> k" by simp_all
    from ih(1) have "(c, cb) \<in> set xs" by (rule map_of_SomeD)
    with Cons.prems(1) x have "k < c" by force
    with ih False x show ?thesis by auto
  qed
qed

lemma lookup_dom: "(lookup ev k \<noteq> None) = (k \<in> set (connection_ids ev))"
  by (simp add: lookup_def connection_ids_def map_of_eq_None_iff)


lemma find_some_first:
  assumes "event_ok ev"
    and "find (\<lambda>(cid, cb). cid \<notin> set invoked) (connections ev) = Some (c, cb)"
  shows "lookup ev c = Some cb" and "c \<notin> set invoked" and "c < nextId ev"
    and "\<And>k. k \<in> set (connection_ids ev) \<Longrightarrow> k \<notin> set invoked \<Longrightarrow> c \<le> k"
proof -
  from assms(1) have s: "sorted_wrt (<) (map fst (connections ev))"
    by (simp add: event_ok_def connection_ids_def)
  note f = find_first_sorted [OF s assms(2)]
  from f show l: "lookup ev c = Some cb" by (simp add: lookup_def)
  from f show "c \<notin> set invoked" by simp
  from l have "c \<in> set (connection_ids ev)" using lookup_dom [of ev c] by simp
  with assms(1) show "c < nextId ev" by (simp add: event_ok_def)
  fix k assume "k \<in> set (connection_ids ev)" "k \<notin> set invoked"
  with f show "c \<le> k" by (auto simp add: connection_ids_def)
qed













lemma forEach_relentless:
  "event_ok ev \<Longrightarrow> \<forall>j \<in> set invoked. j < nextId ev \<Longrightarrow> pending ev invoked \<noteq> {} \<Longrightarrow>
     forEach relentless_code fuel ev invoked = None"
proof (induction fuel arbitrary: ev invoked)
  case 0
  from "0.prems"(3) obtain a where "find (\<lambda>(cid, cb). cid \<notin> set invoked) (connections ev) = Some a"
    by (cases "find (\<lambda>(cid, cb). cid \<notin> set invoked) (connections ev)")
       (auto simp add: find_None_iff pending_def connection_ids_def)
  then show ?case by (simp add: forEach.simps split: prod.splits)
next
  case (Suc fuel)
  from Suc.prems(3) obtain a where "find (\<lambda>(cid, cb). cid \<notin> set invoked) (connections ev) = Some a"
    by (cases "find (\<lambda>(cid, cb). cid \<notin> set invoked) (connections ev)")
       (auto simp add: find_None_iff pending_def connection_ids_def)
  moreover obtain c cb where "a = (c, cb)" by (cases a)
  ultimately have found: "find (\<lambda>(cid, cb). cid \<notin> set invoked) (connections ev) = Some (c, cb)"
    by simp
  note f = find_some_first [OF Suc.prems(1) found]
  let ?ev = "snd (connect ev cb)"
  have ok': "event_ok ?ev" using Suc.prems(1) by (rule event_ok_connect)
  have below: "\<forall>j \<in> set (invoked @ [c]). j < nextId ?ev"
    using Suc.prems(2) f(3) by (auto simp add: less_Suc_eq)
  have "lookup ?ev (nextId ev) \<noteq> None" by (simp add: lookup_connect)
  then have "nextId ev \<in> set (connection_ids ?ev)" using lookup_dom [of ?ev "nextId ev"] by simp
  moreover have "nextId ev \<notin> set (invoked @ [c])" using Suc.prems(2) f(3) by auto
  ultimately have "pending ?ev (invoked @ [c]) \<noteq> {}" by (auto simp add: pending_def)
  from Suc.IH [OF ok' below this] found show ?case
    by (simp add: forEach.simps relentless_code_def)
qed

text \<open>
  Examples: a callback connected while the event is delivered is invoked in the same
  delivery; a callback that disposes of its own subscription does not disturb the
  others; a callback that raises ends the delivery; and when every callback connects
  another one the delivery never ends, whatever number of invocations is allowed.
\<close>

lemma fire_visits_handler_connected_mid_fire:
  "fire connecting_code 4 three_handlers =
     Some (Returned (snd (connect three_handlers 0)) [0, 1, 2, 3])"
  by code_simp

lemma fire_delivers_after_self_disconnect:
  "fire self_disconnecting_code 3 three_handlers =
     Some (Returned (Disconnect 1 three_handlers) [0, 1, 2])"
  by code_simp

lemma fire_stops_at_raising_handler:
  "fire raising_code 3 three_handlers = Some (Threw (Disconnect 0 three_handlers) [0, 1])"
  by code_simp

lemma fire_never_returns_from_relentless_handlers:
  "fire relentless_code fuel three_handlers = None"
proof -
  have "event_ok three_handlers"
    by (simp add: three_handlers_def event_ok_new event_ok_connect)
  moreover have "pending three_handlers [] \<noteq> {}"
    by (auto simp add: pending_def connection_ids_def three_handlers_def connect_def new_Event_def
        Let_def)
  ultimately show ?thesis using forEach_relentless [of three_handlers "[]" fuel]
    by (simp add: fire_def)
qed




end
